theory Spec2Isabelle
  imports Complex_Main "HOL-Library.Multiset"
begin

section \<open>Python values\<close>

text \<open>
  A finite Python float is idealised as a rational, with exact arithmetic (rounding and
  overflow are not modelled). The numeric columns that the repository's preprocessing
  coerces and fills (\<open>Total_Time_Ticks\<close>, \<open>se.sum_exec_runtime\<close>,
  \<open>se.load.weight\<close>) are such numbers. \<open>se.vruntime\<close> is passed through as it
  was read, so it can also be NaN or infinite: \<open>pyfloat\<close> has these values, with the
  comparisons and the arithmetic of IEEE floats on them.
  \<open>int(x)\<close> on a float truncates toward zero.
\<close>

datatype pyfloat = Fin rat | PInf | NInf | NaN

fun fl_eq :: "pyfloat \<Rightarrow> pyfloat \<Rightarrow> bool" where
  "fl_eq (Fin x) (Fin y) = (x = y)"
| "fl_eq PInf PInf = True"
| "fl_eq NInf NInf = True"
| "fl_eq _ _ = False"

fun fl_lt :: "pyfloat \<Rightarrow> pyfloat \<Rightarrow> bool" where
  "fl_lt (Fin x) (Fin y) = (x < y)"
| "fl_lt (Fin x) PInf = True"
| "fl_lt NInf (Fin y) = True"
| "fl_lt NInf PInf = True"
| "fl_lt _ _ = False"

fun fl_neg :: "pyfloat \<Rightarrow> pyfloat" where
  "fl_neg (Fin x) = Fin (- x)"
| "fl_neg PInf = NInf"
| "fl_neg NInf = PInf"
| "fl_neg NaN = NaN"

fun fl_add :: "pyfloat \<Rightarrow> pyfloat \<Rightarrow> pyfloat" where
  "fl_add (Fin x) (Fin y) = Fin (x + y)"
| "fl_add NaN _ = NaN"
| "fl_add _ NaN = NaN"
| "fl_add PInf NInf = NaN"
| "fl_add NInf PInf = NaN"
| "fl_add PInf _ = PInf"
| "fl_add NInf _ = NInf"
| "fl_add (Fin x) y = y"

text \<open>\<open>math.isfinite\<close>.\<close>

fun fl_finite :: "pyfloat \<Rightarrow> bool" where
  "fl_finite (Fin x) = True"
| "fl_finite _ = False"

definition fl_sub :: "pyfloat \<Rightarrow> pyfloat \<Rightarrow> pyfloat" where
  "fl_sub x y = fl_add x (fl_neg y)"

fun fl_abs :: "pyfloat \<Rightarrow> pyfloat" where
  "fl_abs (Fin x) = Fin \<bar>x\<bar>"
| "fl_abs PInf = PInf"
| "fl_abs NInf = PInf"
| "fl_abs NaN = NaN"

definition py_int :: "rat \<Rightarrow> int" where
  "py_int x = (if 0 \<le> x then \<lfloor>x\<rfloor> else \<lceil>x\<rceil>)"

definition upper_char :: "char \<Rightarrow> char" where
  "upper_char c =
     (let n = (of_char c :: nat) in if 97 \<le> n \<and> n \<le> 122 then char_of (n - 32) else c)"

definition upper :: "string \<Rightarrow> string" where
  "upper s = map upper_char s"

text \<open>Truthiness of an optional string, as used by \<open>x or default\<close>.\<close>

definition or_default :: "string option \<Rightarrow> string \<Rightarrow> string option" where
  "or_default l d = (case l of None \<Rightarrow> Some d | Some s \<Rightarrow> if s = [] then Some d else Some s)"

section \<open>Input rows and tasks (task.py)\<close>

text \<open>
  The feature map of a row, restricted to the keys the scheduler reads. A key that is
  absent from the row is \<open>None\<close>.
\<close>

record row =
  PID :: int
  Name :: string
  Arrival_Sec :: "rat option"
  Total_Time_Ticks :: "rat option"
  se_sum_exec_runtime :: "rat option"
  Scheduling_Policy :: "string option"
  se_vruntime :: "pyfloat option"
  se_load_weight :: "rat option"

datatype sched = FIFO | RR | CFS | IDLE

record task =
  features :: row
  pid :: int
  name :: string
  total_time :: int
  remaining :: int
  arrival_time :: int
  resource_type :: "string option"
  interactivity :: "string option"
  priority_class :: "string option"
  execution_class :: "string option"
  subqueue_score :: "rat option"
  assigned_scheduler :: "sched option"
  quantum :: "int option"
  total_run :: int
  first_start :: "int option"
  completion_time :: "int option"
  vruntime :: pyfloat
  weight :: rat
  uid :: string

text \<open>
  \<open>Task.__init__\<close>. The second argument is the value drawn from \<open>uuid.uuid4()\<close>.
  \<open>assigned_scheduler\<close> and \<open>subqueue\<close> are always written together in the
  source (each class has one subqueue), so the pair is kept as the one field
  \<open>assigned_scheduler\<close>; \<open>subqueue_name\<close> below recovers the subqueue.
\<close>

definition get_or :: "'a option \<Rightarrow> 'a \<Rightarrow> 'a" where
  "get_or v d = (case v of Some x \<Rightarrow> x | None \<Rightarrow> d)"

definition Task_init :: "row \<Rightarrow> string \<Rightarrow> task" where
  "Task_init r u =
     (let sum_exec = get_or (se_sum_exec_runtime r) 0;
          total_ticks = get_or (Total_Time_Ticks r) 0;
          tt = py_int (if total_ticks > 0 then total_ticks else sum_exec)
      in \<lparr> features = r, pid = PID r, name = Name r,
           total_time = tt, remaining = tt,
           arrival_time = py_int (get_or (Arrival_Sec r) 0),
           resource_type = None, interactivity = None,
           priority_class = None, execution_class = None,
           subqueue_score = None, assigned_scheduler = None,
           quantum = None, total_run = 0, first_start = None, completion_time = None,
           vruntime = get_or (se_vruntime r) (Fin 0),
           weight = get_or (se_load_weight r) 1024,
           uid = u \<rparr>)"

fun subqueue_name :: "sched \<Rightarrow> string" where
  "subqueue_name FIFO = ''fifo_1''"
| "subqueue_name RR = ''rr_1''"
| "subqueue_name CFS = ''cfs_1''"
| "subqueue_name IDLE = ''idle''"

section \<open>Scheduler state (linux_baseline.py and ai_scheduler.py, \<open>__init__\<close>)\<close>

text \<open>
  Task objects live in a store: \<open>tasks\<close> holds every task object handed to
  \<open>admit\<close>, and queues, heap entries and cores refer to a task by its index there
  (its reference). A CFS heap entry is the tuple
  \<open>(vruntime snapshot, insertion counter, pid, task reference)\<close>.
  The heap is the Python list that \<open>heapq\<close> works on.
  \<open>stale_reinserts\<close> is instrumentation that the source does not have: it counts
  the executions of the stale-entry branch of \<open>_cfs_pop_min\<close>.
\<close>

text \<open>
  How a call ends without a result: it raises \<open>TypeError\<close>, or it never returns
  (the loop of \<open>_cfs_pop_min\<close> runs forever).
\<close>

datatype abort = TypeError | Never_returns

datatype event = ADMIT | ENQUEUE | DISPATCH | RUN | PREEMPT | COMPLETE

record log_row =
  l_time :: int
  l_event :: event
  l_core :: "nat option"
  l_pid :: int
  l_name :: string
  l_assigned_scheduler :: "sched option"
  l_subqueue :: "string option"
  l_remaining :: int
  l_quantum :: "int option"
  l_vruntime :: pyfloat
  l_subqueue_score :: "rat option"
  l_reason :: "string option"

type_synonym entry = "pyfloat \<times> nat \<times> int \<times> nat"

record state =
  time :: int
  tasks :: "task list"
  fifo_1 :: "nat list"
  rr_1 :: "nat list"
  cfs_1 :: "entry list"
  idle :: "nat list"
  cores :: "(nat option \<times> int) list"
  insertion_counter :: nat
  logs :: "log_row list"
  task_map :: "(int \<times> nat) list"
  completed_tasks :: "(int \<times> nat) list"
  context_switches :: nat
  stale_reinserts :: nat

datatype outcome = Predicted string | Decode_failed | Predict_failed

datatype variant = Baseline | AI

text \<open>
  The constructor arguments. \<open>classifier\<close> stands for the four external models
  with their decoders: for the feature map of a task it tells, per category in the
  order resource, interactivity, priority, execution, whether prediction and decoding
  succeed and with which label.
\<close>

record config =
  variant :: variant
  num_cores :: nat
  rr_quantum :: int
  core_priority_order :: "nat \<Rightarrow> sched list option"
  classifier :: "row \<Rightarrow> outcome \<times> outcome \<times> outcome \<times> outcome"

definition NICE0_WEIGHT :: rat where
  "NICE0_WEIGHT = 1024"

definition min_granularity :: int where
  "min_granularity = 1"

definition init_state :: "config \<Rightarrow> state" where
  "init_state cfg =
     \<lparr> time = 0, tasks = [], fifo_1 = [], rr_1 = [], cfs_1 = [], idle = [],
       cores = replicate (num_cores cfg) (None, 0),
       insertion_counter = 0, logs = [], task_map = [], completed_tasks = [],
       context_switches = 0, stale_reinserts = 0 \<rparr>"

text \<open>A dict assignment \<open>d[k] = v\<close>: an existing key keeps its position.\<close>

fun dict_set :: "(int \<times> nat) list \<Rightarrow> int \<Rightarrow> nat \<Rightarrow> (int \<times> nat) list" where
  "dict_set [] k v = [(k, v)]"
| "dict_set ((k', v') # d) k v = (if k' = k then (k, v) # d else (k', v') # dict_set d k v)"

subsection \<open>\<open>_log\<close>\<close>

definition log_event :: "event \<Rightarrow> nat \<Rightarrow> nat option \<Rightarrow> string option \<Rightarrow> state \<Rightarrow> state" where
  "log_event ev a core reason s =
     (let t = tasks s ! a in
      s\<lparr>logs := logs s @
         [\<lparr> l_time = time s, l_event = ev, l_core = core, l_pid = pid t, l_name = name t,
            l_assigned_scheduler = assigned_scheduler t,
            l_subqueue = map_option subqueue_name (assigned_scheduler t),
            l_remaining = remaining t, l_quantum = quantum t, l_vruntime = vruntime t,
            l_subqueue_score = subqueue_score t, l_reason = reason \<rparr>]\<rparr>)"

subsection \<open>Queues\<close>

text \<open>
  Python compares two entries as tuples: the first components that differ (by \<open>==\<close>)
  decide, by \<open><\<close>. A NaN differs from every float and is less than none. (Two
  entries never hold the same float object, each task having its own, so the identity
  shortcut of the tuple comparison does not apply.) The insertion counters of two
  entries differ, so the comparison never reaches the task objects.
\<close>

fun entry_lt :: "entry \<Rightarrow> entry \<Rightarrow> bool" where
  "entry_lt (v1, c1, p1, a1) (v2, c2, p2, a2) =
     (if \<not> fl_eq v1 v2 then fl_lt v1 v2
      else (c1 < c2 \<or> (c1 = c2 \<and> p1 < p2)))"

text \<open>
  \<open>heapq\<close>, as in the standard library: \<open>_siftdown\<close>, \<open>_siftup\<close>,
  \<open>heappush\<close> and \<open>heappop\<close> on a list (\<open>heappop\<close> is only called on a
  non-empty heap).
\<close>

function siftdown_loop :: "entry list \<Rightarrow> nat \<Rightarrow> nat \<Rightarrow> entry \<Rightarrow> entry list" where
  "siftdown_loop heap startpos pos newitem =
     (if pos > startpos then
        (if entry_lt newitem (heap ! ((pos - 1) div 2))
         then siftdown_loop (heap[pos := heap ! ((pos - 1) div 2)]) startpos ((pos - 1) div 2) newitem
         else heap[pos := newitem])
      else heap[pos := newitem])"
  by pat_completeness auto

termination
  by (relation "measure (\<lambda>(heap, startpos, pos, newitem). pos)") auto

declare siftdown_loop.simps [simp del]

definition siftdown :: "entry list \<Rightarrow> nat \<Rightarrow> nat \<Rightarrow> entry list" where
  "siftdown heap startpos pos = siftdown_loop heap startpos pos (heap ! pos)"

text \<open>The loop of \<open>_siftup\<close>: it returns the list and the final \<open>pos\<close>.\<close>

definition smaller_child :: "entry list \<Rightarrow> nat \<Rightarrow> nat" where
  "smaller_child heap childpos =
     (let rightpos = childpos + 1
      in if rightpos < length heap \<and> \<not> entry_lt (heap ! childpos) (heap ! rightpos)
         then rightpos else childpos)"

function siftup_loop :: "entry list \<Rightarrow> nat \<Rightarrow> nat \<Rightarrow> entry list \<times> nat" where
  "siftup_loop heap pos childpos =
     (if childpos < length heap then
        siftup_loop (heap[pos := heap ! smaller_child heap childpos])
          (smaller_child heap childpos) (2 * smaller_child heap childpos + 1)
      else (heap, pos))"
  by pat_completeness auto

termination
  by (relation "measure (\<lambda>(heap, pos, childpos). length heap - childpos)")
     (auto simp: smaller_child_def Let_def)

declare siftup_loop.simps [simp del]

definition siftup :: "entry list \<Rightarrow> nat \<Rightarrow> entry list" where
  "siftup heap pos =
     (let newitem = heap ! pos
      in case siftup_loop heap pos (2 * pos + 1) of
           (h, p) \<Rightarrow> siftdown (h[p := newitem]) pos p)"

definition heappush :: "entry list \<Rightarrow> entry \<Rightarrow> entry list" where
  "heappush heap item = siftdown (heap @ [item]) 0 (length heap)"

definition heappop :: "entry list \<Rightarrow> entry \<times> entry list" where
  "heappop heap =
     (let lastelt = last heap; heap1 = butlast heap
      in if heap1 \<noteq> [] then (heap1 ! 0, siftup (heap1[0 := lastelt]) 0)
         else (lastelt, heap1))"

definition cfs_insert :: "nat \<Rightarrow> state \<Rightarrow> state" where
  "cfs_insert a s =
     (let t = tasks s ! a in
      s\<lparr>cfs_1 := heappush (cfs_1 s) (vruntime t, insertion_counter s, pid t, a),
        insertion_counter := Suc (insertion_counter s)\<rparr>)"

text \<open>
  The test \<open>abs(float(task.vruntime) - float(vr)) < 1e-6\<close>. It is false whenever one
  of the two values is NaN or infinite, also when they are the same value.
\<close>

definition close_enough :: "pyfloat \<Rightarrow> pyfloat \<Rightarrow> bool" where
  "close_enough live vr = fl_lt (fl_abs (fl_sub live vr)) (Fin (1 / 1000000))"

definition stale :: "task list \<Rightarrow> entry \<Rightarrow> bool" where
  "stale ts e = (case e of (vr, c, p, a) \<Rightarrow> \<not> close_enough (vruntime (ts ! a)) vr)"

text \<open>
  The \<open>while heap:\<close> loop of \<open>_cfs_pop_min\<close> on what it reads and writes: the
  store, the heap, the insertion counter (and the instrumentation counter). The loop
  need not end: \<open>None\<close> is the loop that never returns.
\<close>

partial_function (option) pop_loop ::
  "task list \<Rightarrow> entry list \<Rightarrow> nat \<Rightarrow> nat \<Rightarrow> (nat option \<times> entry list \<times> nat \<times> nat) option" where
  "pop_loop ts heap c n =
     (if heap = [] then Some (None, heap, c, n)
      else (case heappop heap of
              ((vr, k, p, a), h) \<Rightarrow>
                if close_enough (vruntime (ts ! a)) vr then Some (Some a, h, c, n)
                else pop_loop ts (heappush h (vruntime (ts ! a), c, pid (ts ! a), a))
                       (Suc c) (Suc n)))"

declare pop_loop.simps [code]

definition cfs_pop_min :: "state \<Rightarrow> (nat option \<times> state) option" where
  "cfs_pop_min s =
     (case pop_loop (tasks s) (cfs_1 s) (insertion_counter s) (stale_reinserts s) of
        None \<Rightarrow> None
      | Some (r, h, c, n) \<Rightarrow>
          Some (r, s\<lparr>cfs_1 := h, insertion_counter := c, stale_reinserts := n\<rparr>))"

text \<open>The deque of a class other than CFS.\<close>

fun deque_of :: "sched \<Rightarrow> state \<Rightarrow> nat list" where
  "deque_of FIFO s = fifo_1 s"
| "deque_of RR s = rr_1 s"
| "deque_of IDLE s = idle s"
| "deque_of CFS s = map (\<lambda>(vr, c, p, a). a) (cfs_1 s)"

fun set_deque :: "sched \<Rightarrow> nat list \<Rightarrow> state \<Rightarrow> state" where
  "set_deque FIFO q s = s\<lparr>fifo_1 := q\<rparr>"
| "set_deque RR q s = s\<lparr>rr_1 := q\<rparr>"
| "set_deque IDLE q s = s\<lparr>idle := q\<rparr>"
| "set_deque CFS q s = s"

definition enqueue_task :: "nat \<Rightarrow> state \<Rightarrow> state" where
  "enqueue_task a s =
     (let sched = (case assigned_scheduler (tasks s ! a) of None \<Rightarrow> CFS | Some x \<Rightarrow> x);
          s1 = (if sched = CFS then cfs_insert a s
                else set_deque sched (deque_of sched s @ [a]) s)
      in log_event ENQUEUE a None None s1)"

definition dequeue_task :: "sched \<Rightarrow> state \<Rightarrow> (nat option \<times> state) option" where
  "dequeue_task sched s =
     (if sched = CFS then cfs_pop_min s
      else (case deque_of sched s of
              [] \<Rightarrow> Some (None, s)
            | a # q \<Rightarrow> Some (Some a, set_deque sched q s)))"

subsection \<open>\<open>_pick_task_for_core\<close>\<close>

definition default_order :: "sched list" where
  "default_order = [FIFO, RR, CFS, IDLE]"

definition pick_task_for_core :: "config \<Rightarrow> nat \<Rightarrow> state \<Rightarrow> sched option" where
  "pick_task_for_core cfg core_id s =
     (let order = (case core_priority_order cfg core_id of
                     None \<Rightarrow> default_order | Some order \<Rightarrow> order)
      in find (\<lambda>sched. deque_of sched s \<noteq> []) order)"

subsection \<open>Quantum sizing and \<open>_dispatch_to_core\<close>\<close>

definition weight_or_nice0 :: "task \<Rightarrow> rat" where
  "weight_or_nice0 t = (if weight t = 0 then NICE0_WEIGHT else weight t)"

text \<open>
  The sum over the heap entries, taken after the dispatched task has been popped,
  with its fallback; \<open>h\<close> is the heap at that moment.
\<close>

definition runnable_set_weight :: "task list \<Rightarrow> entry list \<Rightarrow> task \<Rightarrow> rat" where
  "runnable_set_weight ts h t =
     (let w = sum_list (map (\<lambda>(vr, c, p, b).
                  if weight (ts ! b) > 0 then weight (ts ! b) else NICE0_WEIGHT) h)
      in if w \<le> 0 then weight_or_nice0 t else w)"

definition base_slice :: "task list \<Rightarrow> entry list \<Rightarrow> task \<Rightarrow> int" where
  "base_slice ts h t =
     (let sched_latency_ticks = 48;
          proportion = weight_or_nice0 t / runnable_set_weight ts h t
      in py_int (sched_latency_ticks * proportion))"

text \<open>\<open>float(getattr(task, "subqueue_score", 2.0))\<close>: the attribute always exists,
  and \<open>float(None)\<close> raises.\<close>

definition float_score :: "task \<Rightarrow> abort + rat" where
  "float_score t = (case subqueue_score t of None \<Rightarrow> Inl TypeError | Some x \<Rightarrow> Inr x)"

definition rr_quantum_dispatch_ai :: "rat \<Rightarrow> int" where
  "rr_quantum_dispatch_ai score =
     (let base_score = 5 / 2; max_score = 63 / 20;
          base_quantum = 100; max_quantum = 200
      in if score \<le> base_score then base_quantum
         else if score \<ge> max_score then max_quantum
         else (let frac = (score - base_score) / (max_score - base_score)
               in py_int (of_int base_quantum + frac * of_int (max_quantum - base_quantum))))"

definition exec_factor :: "string option \<Rightarrow> rat" where
  "exec_factor exec_class =
     (if exec_class = Some ''Short'' then 1
      else if exec_class = Some ''Medium'' then 3 / 2
      else if exec_class = Some ''Long'' then 2
      else 3 / 2)"

definition dispatch_quantum :: "config \<Rightarrow> sched \<Rightarrow> state \<Rightarrow> task \<Rightarrow> abort + int" where
  "dispatch_quantum cfg sched s t =
     (case sched of
        CFS \<Rightarrow>
          (let bs = base_slice (tasks s) (cfs_1 s) t in
           case variant cfg of
             Baseline \<Rightarrow> Inr (max min_granularity bs)
           | AI \<Rightarrow>
               (case float_score t of
                  Inl e \<Rightarrow> Inl e
                | Inr score \<Rightarrow>
                    (let exec_scale = exec_factor (execution_class t);
                         score_scale = 1 + (1 / 5) * (score - 2);
                         quanta = of_int bs * exec_scale * score_scale
                     in Inr (max min_granularity (py_int quanta)))))
      | FIFO \<Rightarrow> Inr (max 1 (remaining t))
      | RR \<Rightarrow>
          (case variant cfg of
             Baseline \<Rightarrow> Inr (max min_granularity (rr_quantum cfg))
           | AI \<Rightarrow>
               (case float_score t of
                  Inl e \<Rightarrow> Inl e
                | Inr score \<Rightarrow> Inr (rr_quantum_dispatch_ai score)))
      | IDLE \<Rightarrow> Inr (max 1 (remaining t)))"

definition dispatch_to_core :: "config \<Rightarrow> nat \<Rightarrow> sched \<Rightarrow> state \<Rightarrow> abort + state" where
  "dispatch_to_core cfg core_id sched s =
     (case dequeue_task sched s of
        None \<Rightarrow> Inl Never_returns
      | Some (None, s1) \<Rightarrow> Inr s1
      | Some (Some a, s1) \<Rightarrow>
          (case dispatch_quantum cfg sched s1 (tasks s1 ! a) of
             Inl e \<Rightarrow> Inl e
           | Inr q \<Rightarrow>
               (let t = tasks s1 ! a;
                    t1 = t\<lparr>quantum := Some q,
                           first_start := (case first_start t of
                                             None \<Rightarrow> Some (time s1) | Some f \<Rightarrow> Some f)\<rparr>;
                    s2 = s1\<lparr>tasks := (tasks s1)[a := t1],
                            cores := (cores s1)[core_id := (Some a, q)],
                            context_switches := Suc (context_switches s1)\<rparr>
                in Inr (log_event DISPATCH a (Some core_id) None s2))))"

subsection \<open>\<open>_update_vruntime\<close> and \<open>_run_one_tick_on_core\<close>\<close>

definition update_vruntime :: "config \<Rightarrow> task \<Rightarrow> abort + task" where
  "update_vruntime cfg t =
     (let t1 = (if weight t \<le> 0 then t\<lparr>weight := 1\<rparr> else t);
          base_inc = 1 * (NICE0_WEIGHT / weight t1)
      in case variant cfg of
           Baseline \<Rightarrow> Inr (t1\<lparr>vruntime := fl_add (vruntime t1) (Fin base_inc)\<rparr>)
         | AI \<Rightarrow>
             (case float_score t1 of
                Inl e \<Rightarrow> Inl e
              | Inr score \<Rightarrow>
                  (let score_scale = 2 / max (1 / 2) score
                   in Inr (t1\<lparr>vruntime := fl_add (vruntime t1) (Fin (base_inc * score_scale))\<rparr>))))"

definition clear_core :: "nat \<Rightarrow> state \<Rightarrow> state" where
  "clear_core core_id s = s\<lparr>cores := (cores s)[core_id := (None, 0)]\<rparr>"

definition quantum_expired :: "nat \<Rightarrow> nat \<Rightarrow> state \<Rightarrow> state" where
  "quantum_expired core_id a s =
     (case assigned_scheduler (tasks s ! a) of
        Some RR \<Rightarrow>
          (let s1 = log_event PREEMPT a (Some core_id) (Some ''quantum_expired'') s
           in clear_core core_id (s1\<lparr>rr_1 := rr_1 s1 @ [a]\<rparr>))
      | Some CFS \<Rightarrow>
          (let s1 = log_event PREEMPT a (Some core_id) (Some ''cfs_quantum_expired'') s
           in clear_core core_id (cfs_insert a s1))
      | Some FIFO \<Rightarrow>
          (let s1 = log_event PREEMPT a (Some core_id) (Some ''fifo_preempt'') s
           in clear_core core_id (s1\<lparr>fifo_1 := a # fifo_1 s1\<rparr>))
      | _ \<Rightarrow> clear_core core_id s)"

text \<open>The work of one tick on the running task itself.\<close>

definition run_task_one_tick :: "config \<Rightarrow> task \<Rightarrow> abort + task" where
  "run_task_one_tick cfg t =
     (let t1 = t\<lparr>remaining := max 0 (remaining t - 1), total_run := total_run t + 1\<rparr>
      in if assigned_scheduler t1 = Some CFS then update_vruntime cfg t1 else Inr t1)"

text \<open>The branch \<open>if task.remaining <= 0\<close>.\<close>

definition complete_task :: "nat \<Rightarrow> nat \<Rightarrow> state \<Rightarrow> state" where
  "complete_task core_id a s =
     (let t = tasks s ! a;
          s3 = s\<lparr>tasks := (tasks s)[a := t\<lparr>completion_time := Some (time s)\<rparr>],
                 completed_tasks := dict_set (completed_tasks s) (pid t) a\<rparr>;
          s4 = log_event COMPLETE a (Some core_id) None s3
      in clear_core core_id s4)"

definition run_one_tick_on_core :: "config \<Rightarrow> nat \<Rightarrow> state \<Rightarrow> abort + state" where
  "run_one_tick_on_core cfg core_id s =
     (case cores s ! core_id of
        (None, left) \<Rightarrow> Inr s
      | (Some a, left) \<Rightarrow>
          (case run_task_one_tick cfg (tasks s ! a) of
             Inl e \<Rightarrow> Inl e
           | Inr t2 \<Rightarrow>
               (let time_left = max 0 (left - 1);
                    s1 = s\<lparr>tasks := (tasks s)[a := t2],
                           cores := (cores s)[core_id := (Some a, time_left)]\<rparr>;
                    s2 = log_event RUN a (Some core_id) None s1
                in if remaining t2 \<le> 0 then Inr (complete_task core_id a s2)
                   else if time_left \<le> 0 then Inr (quantum_expired core_id a s2)
                   else Inr s2)))"

subsection \<open>\<open>tick\<close>\<close>

definition core_iteration :: "config \<Rightarrow> nat \<Rightarrow> state \<Rightarrow> abort + state" where
  "core_iteration cfg cid s =
     (case (if fst (cores s ! cid) = None then
              (case pick_task_for_core cfg cid s of
                 None \<Rightarrow> Inr s
               | Some sched \<Rightarrow> dispatch_to_core cfg cid sched s)
            else Inr s) of
        Inl e \<Rightarrow> Inl e
      | Inr s1 \<Rightarrow> run_one_tick_on_core cfg cid s1)"

fun for_cores :: "config \<Rightarrow> nat list \<Rightarrow> state \<Rightarrow> abort + state" where
  "for_cores cfg [] s = Inr s"
| "for_cores cfg (cid # cids) s =
     (case core_iteration cfg cid s of
        Inl e \<Rightarrow> Inl e
      | Inr s1 \<Rightarrow> for_cores cfg cids s1)"

definition tick :: "config \<Rightarrow> int \<Rightarrow> state \<Rightarrow> abort + state" where
  "tick cfg current_time s = for_cores cfg [0..<num_cores cfg] (s\<lparr>time := current_time\<rparr>)"

subsection \<open>\<open>admit\<close>\<close>

definition sched_pol :: "task \<Rightarrow> string" where
  "sched_pol t =
     upper (case Scheduling_Policy (features t) of None \<Rightarrow> [] | Some p \<Rightarrow> p)"

text \<open>The estimate of \<open>remaining\<close> at admission, the same in both variants.\<close>

definition estimate_remaining :: "task \<Rightarrow> task" where
  "estimate_remaining t =
     (if remaining t = 0 then
        t\<lparr>remaining :=
            (case Total_Time_Ticks (features t) of
               Some x \<Rightarrow> py_int x
             | None \<Rightarrow> (if total_time t = 0 then 1 else total_time t))\<rparr>
      else t)"

definition ensure_vruntime_weight :: "task \<Rightarrow> task" where
  "ensure_vruntime_weight t =
     t\<lparr>vruntime := get_or (se_vruntime (features t))
                    (if vruntime t = Fin 0 then Fin 0 else vruntime t),
       weight := get_or (se_load_weight (features t)) (if weight t = 0 then 1024 else weight t)\<rparr>"

definition admit_baseline_task :: "config \<Rightarrow> task \<Rightarrow> task" where
  "admit_baseline_task cfg t =
     (let p = sched_pol t;
          t1 = t\<lparr>assigned_scheduler :=
                   (if p = ''SCHED_FIFO'' then Some FIFO
                    else if p = ''SCHED_RR'' then Some RR
                    else if p = ''SCHED_IDLE'' then Some IDLE
                    else Some CFS)\<rparr>;
          t2 = estimate_remaining t1;
          t3 = ensure_vruntime_weight t2
      in if assigned_scheduler t3 = Some RR
         then t3\<lparr>quantum := Some (max min_granularity (rr_quantum cfg))\<rparr>
         else t3\<lparr>quantum := None\<rparr>)"

text \<open>
  \<open>_classify_task\<close>: a failing decoder gives the category its default; a failing
  predictor leaves the outer \<open>try\<close>, after which every label that is still unset (or
  empty) gets its default.
\<close>

definition decoded :: "outcome \<Rightarrow> string \<Rightarrow> string option" where
  "decoded oc d = (case oc of Predicted l \<Rightarrow> Some l | _ \<Rightarrow> Some d)"

definition classify_failed :: "task \<Rightarrow> task" where
  "classify_failed t =
     t\<lparr>resource_type := or_default (resource_type t) ''Mixed'',
       interactivity := or_default (interactivity t) ''Other'',
       priority_class := or_default (priority_class t) ''Medium'',
       execution_class := or_default (execution_class t) ''Medium''\<rparr>"

definition classify_task :: "config \<Rightarrow> task \<Rightarrow> task" where
  "classify_task cfg t =
     (case classifier cfg (features t) of (pred_res, pred_int, pred_pri, pred_exe) \<Rightarrow>
        if pred_res = Predict_failed then classify_failed t
        else (let t1 = t\<lparr>resource_type := decoded pred_res ''Mixed''\<rparr> in
          if pred_int = Predict_failed then classify_failed t1
          else (let t2 = t1\<lparr>interactivity := decoded pred_int ''Other''\<rparr> in
            if pred_pri = Predict_failed then classify_failed t2
            else (let t3 = t2\<lparr>priority_class := decoded pred_pri ''Medium''\<rparr> in
              if pred_exe = Predict_failed then classify_failed t3
              else t3\<lparr>execution_class := decoded pred_exe ''Medium''\<rparr>))))"

definition Rmap :: "string option \<Rightarrow> rat" where
  "Rmap l = (if l = Some ''CPU-bound'' then 3 else if l = Some ''Mixed'' then 2
             else if l = Some ''IO-bound'' then 1 else 2)"

definition Imap :: "string option \<Rightarrow> rat" where
  "Imap l = (if l = Some ''Real-time'' then 4 else if l = Some ''Interactive'' then 3
             else if l = Some ''Other'' then 2 else if l = Some ''Background'' then 3 / 2
             else if l = Some ''Batch'' then 1 else 2)"

definition Emap :: "string option \<Rightarrow> rat" where
  "Emap l = (if l = Some ''Short'' then 3 else if l = Some ''Medium'' then 2
             else if l = Some ''Long'' then 1 else 2)"

definition Pmap :: "string option \<Rightarrow> rat" where
  "Pmap l = (if l = Some ''High'' then 3 else if l = Some ''Medium'' then 2
             else if l = Some ''Low'' then 1 else 2)"

definition compute_subqueue_score :: "task \<Rightarrow> task" where
  "compute_subqueue_score t =
     t\<lparr>subqueue_score :=
         Some ((1 / 5) * Rmap (resource_type t) + (7 / 20) * Imap (interactivity t)
               + (1 / 5) * Emap (execution_class t) + (3 / 10) * Pmap (priority_class t))\<rparr>"

definition assign_scheduler_and_subqueue :: "task \<Rightarrow> abort + task" where
  "assign_scheduler_and_subqueue t =
     (let p = sched_pol t in
      if p = ''SCHED_FIFO'' then Inr (t\<lparr>assigned_scheduler := Some FIFO\<rparr>)
      else if p = ''SCHED_IDLE'' then Inr (t\<lparr>assigned_scheduler := Some IDLE\<rparr>)
      else (case (case subqueue_score t of None \<Rightarrow> Inl TypeError | Some x \<Rightarrow> Inr x) of
              Inl e \<Rightarrow> Inl e
            | Inr score \<Rightarrow>
                if interactivity t = Some ''Real-time''
                then Inr (t\<lparr>assigned_scheduler := Some FIFO\<rparr>)
                else if (interactivity t = Some ''Interactive''
                         \<and> execution_class t = Some ''Short''
                         \<and> priority_class t = Some ''High'') \<or> score > 13 / 5
                then Inr (t\<lparr>assigned_scheduler := Some RR\<rparr>)
                else Inr (t\<lparr>assigned_scheduler := Some CFS\<rparr>)))"

definition rr_quantum_admit_ai :: "rat \<Rightarrow> int" where
  "rr_quantum_admit_ai score =
     (let base_score = 5 / 2; max_score = 63 / 20;
          base_quantum = 100; max_quantum = 200
      in if score \<le> base_score then base_quantum
         else if score \<ge> max_score then max_quantum
         else (let frac = (score - base_score) / (max_score - base_score)
               in py_int (of_int base_quantum + frac * of_int (max_quantum - base_quantum))))"

definition admit_ai_task :: "config \<Rightarrow> task \<Rightarrow> abort + task" where
  "admit_ai_task cfg t =
     (let t1 = classify_task cfg t;
          t2 = compute_subqueue_score t1;
          t3 = estimate_remaining t2;
          p = sched_pol t3
      in case (if p = ''SCHED_FIFO'' then Inr (t3\<lparr>assigned_scheduler := Some FIFO\<rparr>)
               else if p = ''SCHED_RR'' then Inr (t3\<lparr>assigned_scheduler := Some RR\<rparr>)
               else if p = ''SCHED_IDLE'' then Inr (t3\<lparr>assigned_scheduler := Some IDLE\<rparr>)
               else assign_scheduler_and_subqueue t3) of
           Inl e \<Rightarrow> Inl e
         | Inr t4 \<Rightarrow>
             (let t5 = ensure_vruntime_weight t4
              in if assigned_scheduler t5 = Some RR then
                   (case float_score t5 of
                      Inl e \<Rightarrow> Inl e
                    | Inr score \<Rightarrow> Inr (t5\<lparr>quantum := Some (rr_quantum_admit_ai score)\<rparr>))
                 else Inr t5))"

text \<open>
  \<open>admit\<close>, called as the driver does with a task object just built from a row: the
  object is new, so it gets the next reference of the store. \<open>current_time\<close> is not
  a parameter of the model: the source uses it only when the task has no
  \<open>arrival_time\<close>, which the constructor always sets.
\<close>

definition admit :: "config \<Rightarrow> task \<Rightarrow> state \<Rightarrow> abort + state" where
  "admit cfg t s =
     (case (case variant cfg of
              Baseline \<Rightarrow> Inr (admit_baseline_task cfg t)
            | AI \<Rightarrow> admit_ai_task cfg t) of
        Inl e \<Rightarrow> Inl e
      | Inr t1 \<Rightarrow>
          (let a = length (tasks s);
               s1 = s\<lparr>tasks := tasks s @ [t1], task_map := dict_set (task_map s) (pid t1) a\<rparr>
           in Inr (enqueue_task a (log_event ADMIT a None None s1))))"

subsection \<open>\<open>export_task_metrics\<close>\<close>

record metrics_row =
  m_pid :: int
  m_arrival :: int
  m_first_start :: "int option"
  m_completion :: "int option"
  m_execution_time :: int
  m_waiting :: "int option"
  m_turnaround :: "int option"
  m_stretch :: "rat option"
  m_scheduler :: "sched option"

definition metrics_of :: "int \<Rightarrow> task \<Rightarrow> metrics_row" where
  "metrics_of p t =
     (let arrival = arrival_time t; first = first_start t; comp = completion_time t;
          exec_time = total_run t;
          waiting = map_option (\<lambda>f. f - arrival) first;
          turnaround = map_option (\<lambda>c. c - arrival) comp
      in \<lparr> m_pid = p, m_arrival = arrival, m_first_start = first, m_completion = comp,
           m_execution_time = exec_time, m_waiting = waiting, m_turnaround = turnaround,
           m_stretch = (if exec_time > 0
                        then map_option (\<lambda>ta. of_int ta / of_int exec_time) turnaround
                        else None),
           m_scheduler = assigned_scheduler t \<rparr>)"

definition export_task_metrics :: "state \<Rightarrow> metrics_row list" where
  "export_task_metrics s =
     concat (map (\<lambda>(p, a). case map_of (completed_tasks s) p of
                               None \<Rightarrow> []
                             | Some b \<Rightarrow> [metrics_of p (tasks s ! b)])
                 (task_map s))"

subsection \<open>Runs\<close>

text \<open>
  What the driver does to a scheduler: it admits a task built from a row (the string
  is the value \<open>uuid4\<close> gives the new task), or it calls \<open>tick\<close> with the
  current time. An exception ends the run.
\<close>

datatype op = Admit row string | Tick int

fun step :: "config \<Rightarrow> op \<Rightarrow> state \<Rightarrow> abort + state" where
  "step cfg (Admit r u) s = admit cfg (Task_init r u) s"
| "step cfg (Tick t) s = tick cfg t s"

fun run :: "config \<Rightarrow> op list \<Rightarrow> state \<Rightarrow> abort + state" where
  "run cfg [] s = Inr s"
| "run cfg (x # xs) s = (case step cfg x s of Inl e \<Rightarrow> Inl e | Inr s1 \<Rightarrow> run cfg xs s1)"

text \<open>The ticks \<open>t, t + 1, ..., t + n - 1\<close> with no admission in between.\<close>

fun ticks :: "config \<Rightarrow> nat \<Rightarrow> int \<Rightarrow> state \<Rightarrow> abort + state" where
  "ticks cfg 0 t s = Inr s"
| "ticks cfg (Suc n) t s =
     (case tick cfg t s of Inl e \<Rightarrow> Inl e | Inr s1 \<Rightarrow> ticks cfg n (t + 1) s1)"

definition baseline_config :: "nat \<Rightarrow> config" where
  "baseline_config n =
     \<lparr> variant = Baseline, num_cores = n, rr_quantum = 100,
       core_priority_order = (\<lambda>cid. if cid < n then Some [FIFO, RR, CFS, IDLE] else None),
       classifier = (\<lambda>r. (Predict_failed, Predict_failed, Predict_failed, Predict_failed)) \<rparr>"

definition ai_config :: "nat \<Rightarrow> (row \<Rightarrow> outcome \<times> outcome \<times> outcome \<times> outcome) \<Rightarrow> config" where
  "ai_config n cl =
     \<lparr> variant = AI, num_cores = n, rr_quantum = 100,
       core_priority_order = (\<lambda>cid. if cid < n then Some [FIFO, RR, CFS, IDLE] else None),
       classifier = cl \<rparr>"

subsection \<open>Rows of the scenarios\<close>

definition scenario_row :: "int \<Rightarrow> rat option \<Rightarrow> string option \<Rightarrow> row" where
  "scenario_row p ticks_opt pol =
     \<lparr> PID = p, Name = ''T'', Arrival_Sec = Some 0, Total_Time_Ticks = ticks_opt,
       se_sum_exec_runtime = None, Scheduling_Policy = pol,
       se_vruntime = None, se_load_weight = Some 1024 \<rparr>"

definition dispatch_rows :: "state \<Rightarrow> (int \<times> int \<times> int option) list" where
  "dispatch_rows s =
     map (\<lambda>l. (l_time l, l_pid l, l_quantum l)) (filter (\<lambda>l. l_event l = DISPATCH) (logs s))"

definition witness_classifier :: "string \<Rightarrow> row \<Rightarrow> outcome \<times> outcome \<times> outcome \<times> outcome" where
  "witness_classifier l r = (Predicted ''CPU-bound'', Predicted l, Predicted ''High'', Predicted ''Short'')"

subsection \<open>The assignment rules 4 to 6 in the words of the specification\<close>


definition entry_ref :: "entry \<Rightarrow> nat" where
  "entry_ref e = (case e of (vr, c, p, a) \<Rightarrow> a)"

text \<open>A heap whose only entry has the snapshot 0 while its task has the vruntime 5.\<close>

definition stale_heap_state :: state where
  "stale_heap_state =
     (init_state (baseline_config 1))
       \<lparr>tasks := [(Task_init (scenario_row 1 (Some 100) None) [])\<lparr>vruntime := Fin 5\<rparr>],
        cfs_1 := [(Fin 0, 0, 1, 0)], insertion_counter := 1\<rparr>"

section \<open>Invariants of both schedulers\<close>

text \<open>
  The tasks that sit in a ready queue, by their references: the three deques and the
  references of the heap entries. \<open>placement_ok\<close> says that a task is in at most
  one place (once in a queue, or on one core), \<open>work_ok\<close> that the work of every
  task with \<open>total_time \<ge> 1\<close> is accounted for and that a task in a queue or on
  a core still has work to do.
\<close>

definition queued :: "state \<Rightarrow> nat list" where
  "queued s = fifo_1 s @ rr_1 s @ idle s @ map entry_ref (cfs_1 s)"

definition placement_ok :: "config \<Rightarrow> state \<Rightarrow> bool" where
  "placement_ok cfg s \<longleftrightarrow>
     length (cores s) = num_cores cfg
     \<and> distinct (queued s)
     \<and> (\<forall>a \<in> set (queued s). a < length (tasks s))
     \<and> (\<forall>i < length (cores s). \<forall>a. fst (cores s ! i) = Some a \<longrightarrow>
           a < length (tasks s) \<and> a \<notin> set (queued s)
           \<and> (\<forall>j < length (cores s). fst (cores s ! j) = Some a \<longrightarrow> j = i))"

definition work_ok :: "state \<Rightarrow> bool" where
  "work_ok s \<longleftrightarrow>
     (\<forall>a < length (tasks s). 1 \<le> total_time (tasks s ! a) \<longrightarrow>
        remaining (tasks s ! a) + total_run (tasks s ! a) = total_time (tasks s ! a)
        \<and> ((a \<in> set (queued s) \<or> (\<exists>i < length (cores s). fst (cores s ! i) = Some a))
             \<longrightarrow> 1 \<le> remaining (tasks s ! a)))"

definition sched_inv :: "config \<Rightarrow> state \<Rightarrow> bool" where
  "sched_inv cfg s \<longleftrightarrow>
     placement_ok cfg s \<and> work_ok s"

definition task_work_ok :: "task \<Rightarrow> bool" where
  "task_work_ok t \<longleftrightarrow>
     (1 \<le> total_time t \<longrightarrow> remaining t + total_run t = total_time t \<and> 1 \<le> remaining t)"

definition same_work :: "task \<Rightarrow> task \<Rightarrow> bool" where
  "same_work t t' \<longleftrightarrow>
     remaining t' = remaining t \<and> total_run t' = total_run t \<and> total_time t' = total_time t"

definition worked :: "task \<Rightarrow> task \<Rightarrow> bool" where
  "worked t t' \<longleftrightarrow>
     remaining t' = max 0 (remaining t - 1) \<and> total_run t' = total_run t + 1
     \<and> total_time t' = total_time t"

definition ran_effect :: "nat \<Rightarrow> nat \<Rightarrow> state \<Rightarrow> state \<Rightarrow> task \<Rightarrow> nat option \<Rightarrow> int \<Rightarrow> bool" where
  "ran_effect cid a s s' t2 x l \<longleftrightarrow>
     tasks s' = (tasks s)[a := t2] \<and> worked (tasks s ! a) t2
     \<and> cores s' = (cores s)[cid := (x, l)]
     \<and> (x = Some a \<and> 0 < remaining t2 \<or> x = None)
     \<and> (set (queued s') = set (queued s) \<and> (distinct (queued s') \<longleftrightarrow> distinct (queued s))
         \<or> (x = None \<and> 0 < remaining t2 \<and> set (queued s') = insert a (set (queued s))
             \<and> (distinct (queued s') \<longleftrightarrow> a \<notin> set (queued s) \<and> distinct (queued s))))"

text \<open>
  Two runs used as instances: two CFS tasks of 100 ticks on one core, run for two ticks;
  and the admission of a row that has neither \<open>Total_Time_Ticks\<close> nor
  \<open>se.sum_exec_runtime\<close>. \<open>work_triples\<close> reads (remaining, total_run, total_time) of
  every task of the store.
\<close>

definition cfs_pair_ops :: "op list" where
  "cfs_pair_ops =
     [Admit (scenario_row 1 (Some 100) None) [], Admit (scenario_row 2 (Some 100) None) [],
      Tick 0, Tick 1]"

definition no_work_ops :: "op list" where
  "no_work_ops = [Admit (scenario_row 1 None None) []]"

definition work_triples :: "abort + state \<Rightarrow> (int \<times> int \<times> int) list" where
  "work_triples r =
     (case r of Inl e \<Rightarrow> []
      | Inr s \<Rightarrow> map (\<lambda>t. (remaining t, total_run t, total_time t)) (tasks s))"

text \<open>
  A row that is routed to CFS and whose \<open>se.vruntime\<close> is NaN, as read from an
  empty cell of the trace, and the state after its admission to a new scheduler.
\<close>

definition nan_row :: row where
  "nan_row = (scenario_row 1 (Some 100) None)\<lparr>se_vruntime := Some NaN\<rparr>"

definition nan_admitted :: "config \<Rightarrow> state" where
  "nan_admitted cfg =
     (case admit cfg (Task_init nan_row []) (init_state cfg) of
        Inl e \<Rightarrow> init_state cfg | Inr s \<Rightarrow> s)"

section \<open>Task construction\<close>

lemma py_int_of_int [simp]: "py_int (of_int n) = n"
  by (simp add: py_int_def)

text \<open>
  C5, as the source has it: the constructor takes \<open>int(Total_Time_Ticks)\<close> when that
  feature is present and positive, else \<open>int(se.sum_exec_runtime)\<close> with 0 for an absent
  feature, and has no further fallback; \<open>remaining\<close> starts equal to it. So for a row in
  which both fields are absent or zero, the constructed task has \<open>total_time = 0\<close>.
\<close>

theorem task_init_total_time:
  "total_time (Task_init r u) =
      py_int (if 0 < get_or (Total_Time_Ticks r) 0 then get_or (Total_Time_Ticks r) 0
              else get_or (se_sum_exec_runtime r) 0)
   \<and> remaining (Task_init r u) = total_time (Task_init r u)
   \<and> (Total_Time_Ticks r \<in> {None, Some 0} \<and> se_sum_exec_runtime r \<in> {None, Some 0}
        \<longrightarrow> total_time (Task_init r u) = 0)"
  by (auto simp: Task_init_def get_or_def py_int_def Let_def)

theorem task_init_total_time_witness:
  "Total_Time_Ticks (scenario_row 1 None None) \<in> {None, Some 0}
   \<and> se_sum_exec_runtime (scenario_row 1 None None) \<in> {None, Some 0}
   \<and> total_time (Task_init (scenario_row 1 None None) []) = 0"
  using task_init_total_time [of "scenario_row 1 None None" "[]"]
  by (simp add: scenario_row_def)

text \<open>
  C5 as stated fails: a row with neither \<open>Total_Time_Ticks\<close> nor
  \<open>se.sum_exec_runtime\<close> gives a task whose \<open>total_time\<close> is 0, not 1.
\<close>

theorem task_init_total_time_not_one:
  "total_time (Task_init (scenario_row 1 None None) []) \<noteq> 1"
  by (simp add: Task_init_def scenario_row_def get_or_def py_int_def)

section \<open>Admission in the AI variant\<close>

lemma rr_quantum_dispatch_admit: "rr_quantum_dispatch_ai score = rr_quantum_admit_ai score"
  by (simp add: rr_quantum_dispatch_ai_def rr_quantum_admit_ai_def)

lemma rr_quantum_low: "score < 5 / 2 \<Longrightarrow> rr_quantum_admit_ai score = 100"
  by (simp add: rr_quantum_admit_ai_def)

lemma rr_quantum_high: "63 / 20 < score \<Longrightarrow> rr_quantum_admit_ai score = 200"
  by (simp add: rr_quantum_admit_ai_def)

lemma rr_quantum_between:
  "5 / 2 < score \<Longrightarrow> score < 63 / 20 \<Longrightarrow>
   rr_quantum_admit_ai score = py_int (100 + ((score - 5 / 2) / (63 / 20 - 5 / 2)) * 100)"
  by (simp add: rr_quantum_admit_ai_def Let_def)

lemma ensure_vw_fields [simp]:
  "subqueue_score (ensure_vruntime_weight t) = subqueue_score t"
  "assigned_scheduler (ensure_vruntime_weight t) = assigned_scheduler t"
  "interactivity (ensure_vruntime_weight t) = interactivity t"
  "execution_class (ensure_vruntime_weight t) = execution_class t"
  "priority_class (ensure_vruntime_weight t) = priority_class t"
  "remaining (ensure_vruntime_weight t) = remaining t"
  "total_run (ensure_vruntime_weight t) = total_run t"
  "total_time (ensure_vruntime_weight t) = total_time t"
  by (simp_all add: ensure_vruntime_weight_def)

lemma estimate_remaining_fields [simp]:
  "subqueue_score (estimate_remaining t) = subqueue_score t"
  "assigned_scheduler (estimate_remaining t) = assigned_scheduler t"
  "interactivity (estimate_remaining t) = interactivity t"
  "execution_class (estimate_remaining t) = execution_class t"
  "priority_class (estimate_remaining t) = priority_class t"
  "features (estimate_remaining t) = features t"
  "total_run (estimate_remaining t) = total_run t"
  "total_time (estimate_remaining t) = total_time t"
  by (simp_all add: estimate_remaining_def)

lemma compute_score_fields [simp]:
  "subqueue_score (compute_subqueue_score t) =
     Some ((1 / 5) * Rmap (resource_type t) + (7 / 20) * Imap (interactivity t)
               + (1 / 5) * Emap (execution_class t) + (3 / 10) * Pmap (priority_class t))"
  "interactivity (compute_subqueue_score t) = interactivity t"
  "execution_class (compute_subqueue_score t) = execution_class t"
  "priority_class (compute_subqueue_score t) = priority_class t"
  "features (compute_subqueue_score t) = features t"
  "remaining (compute_subqueue_score t) = remaining t"
  "total_run (compute_subqueue_score t) = total_run t"
  "total_time (compute_subqueue_score t) = total_time t"
  by (simp_all add: compute_subqueue_score_def)


lemma admit_ai_task_rr:
  assumes "admit_ai_task cfg t0 = Inr t1" "assigned_scheduler t1 = Some RR"
  shows "\<exists>sc. subqueue_score t1 = Some sc \<and> quantum t1 = Some (rr_quantum_admit_ai sc)"
  using assms
  by (auto simp: admit_ai_task_def Let_def float_score_def assign_scheduler_and_subqueue_def
           split: if_splits sum.splits option.splits)

text \<open>
  C7: in the AI variant the RR quantum computed at admit and the one computed at dispatch
  are the same function of \<open>subqueue_score\<close>: 100 for a score below 2.5, 200 for a score
  above 3.15, and the integer part of \<open>100 + ((score - 2.5) / (3.15 - 2.5)) * 100\<close>
  strictly between them. Dispatch of an RR task sets this quantum, and a task that admit
  assigns to RR leaves admit with it.
\<close>

theorem ai_rr_quantum_piecewise_linear: 
  "rr_quantum_admit_ai score = rr_quantum_dispatch_ai score
   \<and> (score < 5 / 2 \<longrightarrow> rr_quantum_dispatch_ai score = 100)
   \<and> (63 / 20 < score \<longrightarrow> rr_quantum_dispatch_ai score = 200)
   \<and> (5 / 2 < score \<and> score < 63 / 20 \<longrightarrow>
        rr_quantum_dispatch_ai score = py_int (100 + ((score - 5 / 2) / (63 / 20 - 5 / 2)) * 100))
   \<and> (variant cfg = AI \<and> subqueue_score t = Some score \<longrightarrow>
        dispatch_quantum cfg RR s t = Inr (rr_quantum_dispatch_ai score))
   \<and> (admit_ai_task cfg t0 = Inr t1 \<and> assigned_scheduler t1 = Some RR \<longrightarrow>
        (\<exists>sc. subqueue_score t1 = Some sc \<and> quantum t1 = Some (rr_quantum_admit_ai sc)))"
  using admit_ai_task_rr [of cfg t0 t1]
  by (simp add: rr_quantum_dispatch_admit rr_quantum_low rr_quantum_high rr_quantum_between
        dispatch_quantum_def float_score_def)

theorem ai_rr_quantum_piecewise_linear_witness:
  "(2::rat) < 5 / 2 \<and> rr_quantum_dispatch_ai 2 = 100
   \<and> (63::rat) / 20 < 4 \<and> rr_quantum_dispatch_ai 4 = 200
   \<and> (5::rat) / 2 < 3 \<and> (3::rat) < 63 / 20 \<and> rr_quantum_dispatch_ai 3 = 176
   \<and> (\<exists>t1 sc. admit_ai_task (ai_config 1 (witness_classifier ''Interactive''))
                  (Task_init (scenario_row 1 (Some 250) (Some ''SCHED_RR'')) []) = Inr t1
         \<and> assigned_scheduler t1 = Some RR \<and> subqueue_score t1 = Some sc
         \<and> quantum t1 = Some (rr_quantum_admit_ai sc)
         \<and> variant (ai_config 1 (witness_classifier ''Interactive'')) = AI
         \<and> dispatch_quantum (ai_config 1 (witness_classifier ''Interactive'')) RR
              (init_state (ai_config 1 (witness_classifier ''Interactive''))) t1
            = Inr (rr_quantum_dispatch_ai sc))"
proof -
  let ?cfg = "ai_config 1 (witness_classifier ''Interactive'')"
  let ?t0 = "Task_init (scenario_row 1 (Some 250) (Some ''SCHED_RR'')) []"
  have "case admit_ai_task ?cfg ?t0 of Inl e \<Rightarrow> False
        | Inr t1 \<Rightarrow> assigned_scheduler t1 = Some RR"
    by code_simp
  then obtain t1 where t1: "admit_ai_task ?cfg ?t0 = Inr t1" "assigned_scheduler t1 = Some RR"
    by (auto split: sum.splits)
  from ai_rr_quantum_piecewise_linear [of 0 ?cfg t1 "init_state ?cfg" ?t0 t1] t1
  obtain sc where sc: "subqueue_score t1 = Some sc" "quantum t1 = Some (rr_quantum_admit_ai sc)"
    by auto
  have v: "variant ?cfg = AI" by (simp add: ai_config_def)
  from ai_rr_quantum_piecewise_linear [of sc ?cfg t1 "init_state ?cfg" ?t0 t1] sc v
  have d: "dispatch_quantum ?cfg RR (init_state ?cfg) t1 = Inr (rr_quantum_dispatch_ai sc)"
    by simp
  have "rr_quantum_dispatch_ai 2 = 100"
    using ai_rr_quantum_piecewise_linear [of 2 ?cfg t1 "init_state ?cfg" ?t0 t1] by simp
  moreover have "rr_quantum_dispatch_ai 4 = 200"
    using ai_rr_quantum_piecewise_linear [of 4 ?cfg t1 "init_state ?cfg" ?t0 t1] by simp
  moreover have "\<lfloor>(2300::rat) / 13\<rfloor> = 176"
    by (rule floor_unique) simp_all
  then have "rr_quantum_dispatch_ai 3 = 176"
    using ai_rr_quantum_piecewise_linear [of 3 ?cfg t1 "init_state ?cfg" ?t0 t1] by (simp add: py_int_def)
  ultimately show ?thesis
    using t1 sc v d by auto
qed




section \<open>Scenarios of the baseline\<close>

text \<open>
  C1, at the input of the claim: one core, two CFS tasks of weight 1024 admitted at t = 0.
  The first dispatch (pid 1 at t = 0) gets the quantum 48: the sum of weights is taken
  over the heap after the dispatched task has been popped, so it is 1024 and not 2048.
\<close>

theorem baseline_cfs_first_dispatch_quantum:
  "(case run (baseline_config 1)
           [Admit (scenario_row 1 (Some 100) (Some ''SCHED_OTHER'')) [],
            Admit (scenario_row 2 (Some 100) (Some ''SCHED_OTHER'')) [], Tick 0]
           (init_state (baseline_config 1)) of
      Inl e \<Rightarrow> [] | Inr s \<Rightarrow> dispatch_rows s) = [(0, 1, Some 48)]"
  by code_simp

text \<open>
  C2, at the input of the claim: four cores, one FIFO task with arrival 0 and 10 ticks of
  work, ticks 0 to 9. The task is first started at t = 0, its \<open>completion_time\<close> is 9,
  it has run 10 ticks, and the exported turnaround is 9.
\<close>

theorem single_fifo_task_turnaround:
  "(case run (baseline_config 4)
           (Admit (scenario_row 1 (Some 10) (Some ''SCHED_FIFO'')) [] # map Tick [0, 1, 2, 3, 4, 5, 6, 7, 8, 9])
           (init_state (baseline_config 4)) of
      Inl e \<Rightarrow> []
    | Inr s \<Rightarrow> map (\<lambda>m. (m_first_start m, m_completion m, m_execution_time m, m_turnaround m))
                 (export_task_metrics s)) = [(Some 0, Some 9, 10, Some 9)]"
  by code_simp

section \<open>The CFS heap\<close>

text \<open>\<open>heappush\<close> and \<open>heappop\<close> permute the entries, whatever the comparison does.\<close>

lemma mset_move_hole:
  assumes "i < length xs" "j < length xs"
  shows "mset (xs[i := xs ! j, j := x]) = mset (xs[i := x])"
proof (cases "i = j")
  case True
  then show ?thesis by simp
next
  case False
  then show ?thesis
    using assms by (simp add: mset_update nth_list_update)
qed

lemma siftdown_loop_length [simp]:
  "length (siftdown_loop heap startpos pos newitem) = length heap"
  by (induction heap startpos pos newitem rule: siftdown_loop.induct)
     (subst siftdown_loop.simps, simp)

lemma siftdown_loop_mset:
  "pos < length heap \<Longrightarrow>
     mset (siftdown_loop heap startpos pos newitem) = mset (heap[pos := newitem])"
proof (induction heap startpos pos newitem rule: siftdown_loop.induct)
  case (1 heap startpos pos newitem)
  let ?pp = "(pos - 1) div 2"
  show ?case
  proof (cases "pos > startpos \<and> entry_lt newitem (heap ! ?pp)")
    case False
    then show ?thesis by (subst siftdown_loop.simps) auto
  next
    case True
    have pp: "?pp < length heap" using 1(2) by simp
    have "mset (siftdown_loop heap startpos pos newitem)
        = mset (siftdown_loop (heap[pos := heap ! ?pp]) startpos ?pp newitem)"
      using True by (subst siftdown_loop.simps) simp
    also have "\<dots> = mset (heap[pos := heap ! ?pp, ?pp := newitem])"
      using True pp 1(1) by simp
    also have "\<dots> = mset (heap[pos := newitem])"
      using 1(2) pp by (rule mset_move_hole)
    finally show ?thesis .
  qed
qed

lemma mset_siftdown: "pos < length heap \<Longrightarrow> mset (siftdown heap startpos pos) = mset heap"
  by (simp add: siftdown_def siftdown_loop_mset)

lemma mset_heappush [simp]: "mset (heappush heap item) = add_mset item (mset heap)"
  by (simp add: heappush_def mset_siftdown)

lemma smaller_child_cases:
  "smaller_child heap c = c \<or> (smaller_child heap c = c + 1 \<and> c + 1 < length heap)"
  by (simp add: smaller_child_def)

lemma siftup_loop_mset:
  "siftup_loop heap pos childpos = (h, p) \<Longrightarrow> pos < length heap \<Longrightarrow> pos < childpos \<Longrightarrow>
     p < length h \<and> length h = length heap \<and> mset (h[p := x]) = mset (heap[pos := x])"
proof (induction heap pos childpos arbitrary: h p rule: siftup_loop.induct)
  case (1 heap pos childpos)
  show ?case
  proof (cases "childpos < length heap")
    case False
    with 1(2,3) show ?thesis by (subst (asm) siftup_loop.simps) simp
  next
    case True
    let ?c = "smaller_child heap childpos"
    have c: "?c < length heap" "pos < ?c"
      using smaller_child_cases [of heap childpos] True 1(4) by auto
    have r: "siftup_loop (heap[pos := heap ! ?c]) ?c (2 * ?c + 1) = (h, p)"
      using 1(2) True by (subst (asm) siftup_loop.simps) simp
    have "p < length h \<and> length h = length (heap[pos := heap ! ?c])
        \<and> mset (h[p := x]) = mset (heap[pos := heap ! ?c, ?c := x])"
      using 1(1) [OF True r] c by simp
    moreover have "mset (heap[pos := heap ! ?c, ?c := x]) = mset (heap[pos := x])"
      using 1(3) c(1) by (rule mset_move_hole)
    ultimately show ?thesis by simp
  qed
qed

lemma mset_siftup: "pos < length heap \<Longrightarrow> mset (siftup heap pos) = mset heap"
proof -
  assume pos: "pos < length heap"
  obtain h p where r: "siftup_loop heap pos (2 * pos + 1) = (h, p)"
    by (cases "siftup_loop heap pos (2 * pos + 1)")
  from siftup_loop_mset [OF r pos, of "heap ! pos"]
  have "p < length h" "mset (h[p := heap ! pos]) = mset heap"
    by simp_all
  then show ?thesis
    using r by (simp add: siftup_def mset_siftdown)
qed

lemma heappop_mset:
  assumes "heap \<noteq> []" "heappop heap = (e, h)"
  shows "mset heap = add_mset e (mset h)" "e = heap ! 0"
proof -
  obtain b l where hl: "heap = b @ [l]"
    using assms(1) by (cases heap rule: rev_cases) auto
  show "mset heap = add_mset e (mset h)"
  proof (cases "b = []")
    case True
    with assms(2) hl show ?thesis by (simp add: heappop_def)
  next
    case False
    then have e: "e = b ! 0" "h = siftup (b[0 := l]) 0"
      using assms(2) hl by (simp_all add: heappop_def)
    have "mset h = mset (b[0 := l])"
      using False by (simp add: e mset_siftup)
    also have "\<dots> = add_mset l (mset b - {#b ! 0#})"
      using False by (simp add: mset_update)
    finally show ?thesis
      using False by (simp add: hl e(1))
  qed
  show "e = heap ! 0"
    using assms(2) hl by (cases "b = []") (simp_all add: heappop_def nth_append)
qed

lemma heappush_set [simp]: "set (heappush heap item) = insert item (set heap)"
  using mset_heappush [of heap item] by (metis set_mset_add_mset_insert set_mset_mset)

lemma heappush_length [simp]: "length (heappush heap item) = Suc (length heap)"
  using mset_heappush [of heap item] by (metis size_add_mset size_mset)

lemma heappush_not_Nil [simp]: "heappush heap item \<noteq> []"
  using heappush_length [of heap item] by (metis length_0_conv nat.distinct(1))

text \<open>
  What \<open>_cfs_pop_min\<close> has done when it returns, and when it cannot return: the
  test is false for a live vruntime that is NaN or infinite, so a heap all of whose
  tasks have such a vruntime is never left.
\<close>

lemma close_enough_Fin [simp]:
  "close_enough (Fin x) (Fin y) \<longleftrightarrow> \<bar>x - y\<bar> < 1 / 1000000"
  by (simp add: close_enough_def fl_sub_def)

lemma close_enough_finite: "close_enough x y \<Longrightarrow> fl_finite x \<and> fl_finite y"
  by (cases x; cases y) (simp_all add: close_enough_def fl_sub_def)

lemma close_enough_refl: "fl_finite x \<Longrightarrow> close_enough x x"
  by (cases x) simp_all

lemma pop_loop_effect:
  assumes "pop_loop ts heap c n = Some y"
  shows "case y of (r, h', c', n') \<Rightarrow>
           (case r of
              None \<Rightarrow> heap = [] \<and> h' = [] \<and> c' = c \<and> n' = n
            | Some a \<Rightarrow> image_mset entry_ref (mset heap) = add_mset a (image_mset entry_ref (mset h')))"
proof (rule pop_loop.raw_induct
    [where P = "\<lambda>ts heap c n y. case y of (r, h', c', n') \<Rightarrow>
           (case r of
              None \<Rightarrow> heap = [] \<and> h' = [] \<and> c' = c \<and> n' = n
            | Some a \<Rightarrow> image_mset entry_ref (mset heap) = add_mset a (image_mset entry_ref (mset h')))",
     OF _ assms], goal_cases)
  case (1 f ts heap c n y)
  show ?case
  proof (cases "heap = []")
    case True
    with 1(2) show ?thesis by auto
  next
    case False
    obtain vr k p a h where pp: "heappop heap = ((vr, k, p, a), h)"
      by (cases "heappop heap") auto
    have m: "mset heap = add_mset (vr, k, p, a) (mset h)"
      using False pp by (rule heappop_mset)
    show ?thesis
    proof (cases "close_enough (vruntime (ts ! a)) vr")
      case True
      with 1(2) False pp have "y = (Some a, h, c, n)" by simp
      then show ?thesis by (simp add: m entry_ref_def)
    next
      case stale: False
      let ?h = "heappush h (vruntime (ts ! a), c, pid (ts ! a), a)"
      have r: "f ts ?h (Suc c) (Suc n) = Some y"
        using 1(2) False pp stale by simp
      have i: "image_mset entry_ref (mset ?h) = image_mset entry_ref (mset heap)"
        by (simp add: m entry_ref_def)
      obtain r' h' c' n' where y: "y = (r', h', c', n')" by (cases y)
      show ?thesis
        using 1(1) [OF r] unfolding y i by (cases r') simp_all
    qed
  qed
qed

lemma pop_loop_returns_finite:
  assumes "pop_loop ts heap c n = Some y"
  shows "\<not> (heap \<noteq> [] \<and> (\<forall>e \<in> set heap. \<not> fl_finite (vruntime (ts ! entry_ref e))))"
proof (rule pop_loop.raw_induct
    [where P = "\<lambda>ts heap c n y.
        \<not> (heap \<noteq> [] \<and> (\<forall>e \<in> set heap. \<not> fl_finite (vruntime (ts ! entry_ref e))))",
     OF _ assms], goal_cases)
  case (1 f ts heap c n y)
  show ?case
  proof
    assume a: "heap \<noteq> [] \<and> (\<forall>e \<in> set heap. \<not> fl_finite (vruntime (ts ! entry_ref e)))"
    obtain vr k p a h where pp: "heappop heap = ((vr, k, p, a), h)"
      by (cases "heappop heap") auto
    have m: "mset heap = add_mset (vr, k, p, a) (mset h)"
      using a pp by (intro heappop_mset) simp_all
    then have s: "set heap = insert (vr, k, p, a) (set h)"
      by (metis set_mset_add_mset_insert set_mset_mset)
    have inf: "\<not> fl_finite (vruntime (ts ! a))"
      using a s by (auto simp: entry_ref_def)
    then have stale: "\<not> close_enough (vruntime (ts ! a)) vr"
      using close_enough_finite by blast
    let ?h = "heappush h (vruntime (ts ! a), c, pid (ts ! a), a)"
    have r: "f ts ?h (Suc c) (Suc n) = Some y"
      using 1(2) a pp stale by simp
    have "?h \<noteq> [] \<and> (\<forall>e \<in> set ?h. \<not> fl_finite (vruntime (ts ! entry_ref e)))"
      using a s inf by (auto simp: entry_ref_def)
    with 1(1) [OF r] show False by simp
  qed
qed

lemma pop_loop_never_returns:
  assumes "heap \<noteq> []" "\<forall>e \<in> set heap. \<not> fl_finite (vruntime (ts ! entry_ref e))"
  shows "pop_loop ts heap c n = None"
  using assms pop_loop_returns_finite [of ts heap c n]
  by (cases "pop_loop ts heap c n") auto

lemma cfs_pop_min_never_returns:
  assumes "cfs_1 s \<noteq> []" "\<forall>e \<in> set (cfs_1 s). \<not> fl_finite (vruntime (tasks s ! entry_ref e))"
  shows "cfs_pop_min s = None"
  using pop_loop_never_returns [OF assms] by (simp add: cfs_pop_min_def)

lemma nan_admitted_baseline:
  "cfs_1 (nan_admitted (baseline_config 1)) = [(NaN, 0, 1, 0)]"
  "vruntime (tasks (nan_admitted (baseline_config 1)) ! 0) = NaN"
  "cores (nan_admitted (baseline_config 1)) = [(None, 0)]"
  "fifo_1 (nan_admitted (baseline_config 1)) = []"
  "rr_1 (nan_admitted (baseline_config 1)) = []"
  by code_simp+

lemma nan_admitted_ai:
  "cfs_1 (nan_admitted (ai_config 1 (witness_classifier ''Batch''))) = [(NaN, 0, 1, 0)]"
  "vruntime (tasks (nan_admitted (ai_config 1 (witness_classifier ''Batch''))) ! 0) = NaN"
  "cores (nan_admitted (ai_config 1 (witness_classifier ''Batch''))) = [(None, 0)]"
  "fifo_1 (nan_admitted (ai_config 1 (witness_classifier ''Batch''))) = []"
  "rr_1 (nan_admitted (ai_config 1 (witness_classifier ''Batch''))) = []"
  by code_simp+

text \<open>
  C6, at an input the code can receive: a row routed to CFS whose \<open>se.vruntime\<close> is
  NaN. After its admission the heap is not empty and \<open>_cfs_pop_min\<close> never returns,
  in either variant: \<open>abs(live - snapshot) < 1e-6\<close> is false for NaN, so every pop
  is followed by the push of a new entry for the same task. For comparison, on the heap
  whose only entry is stale by a number (snapshot 0, live vruntime 5) the loop reinserts
  once and returns the task.
\<close>

theorem cfs_pop_min_never_returns_on_nan:
  "cfs_1 (nan_admitted (baseline_config 1)) \<noteq> []
   \<and> cfs_pop_min (nan_admitted (baseline_config 1)) = None
   \<and> cfs_1 (nan_admitted (ai_config 1 (witness_classifier ''Batch''))) \<noteq> []
   \<and> cfs_pop_min (nan_admitted (ai_config 1 (witness_classifier ''Batch''))) = None
   \<and> map_option fst (cfs_pop_min stale_heap_state) = Some (Some 0)
   \<and> map_option (stale_reinserts \<circ> snd) (cfs_pop_min stale_heap_state) = Some 1"
proof -
  have "cfs_pop_min (nan_admitted (baseline_config 1)) = None"
    by (rule cfs_pop_min_never_returns)
       (simp_all add: nan_admitted_baseline entry_ref_def del: One_nat_def)
  moreover have "cfs_pop_min (nan_admitted (ai_config 1 (witness_classifier ''Batch''))) = None"
    by (rule cfs_pop_min_never_returns)
       (simp_all add: nan_admitted_ai entry_ref_def del: One_nat_def)
  moreover have "map_option fst (cfs_pop_min stale_heap_state) = Some (Some 0)"
    "map_option (stale_reinserts \<circ> snd) (cfs_pop_min stale_heap_state) = Some 1"
    by code_simp+
  ultimately show ?thesis
    by (simp add: nan_admitted_baseline nan_admitted_ai del: One_nat_def)
qed

section \<open>Preservation of the invariants\<close>

lemma heappush_refs_mset [simp]:
  "mset (map entry_ref (heappush xs e)) = add_mset (entry_ref e) (mset (map entry_ref xs))"
  by simp

lemma heappush_refs_set [simp]:
  "set (map entry_ref (heappush xs e)) = insert (entry_ref e) (entry_ref ` set xs)"
  by simp

lemma heappush_refs_distinct [simp]:
  "distinct (map entry_ref (heappush xs e)) \<longleftrightarrow>
     entry_ref e \<notin> entry_ref ` set xs \<and> distinct (map entry_ref xs)"
proof -
  have "mset (map entry_ref (heappush xs e)) = mset (entry_ref e # map entry_ref xs)"
    by simp
  then have "distinct (map entry_ref (heappush xs e)) = distinct (entry_ref e # map entry_ref xs)"
    by (rule mset_eq_imp_distinct_iff)
  then show ?thesis by simp
qed

lemma log_event_fields [simp]:
  "tasks (log_event ev a c r s) = tasks s"
  "fifo_1 (log_event ev a c r s) = fifo_1 s"
  "rr_1 (log_event ev a c r s) = rr_1 s"
  "idle (log_event ev a c r s) = idle s"
  "cfs_1 (log_event ev a c r s) = cfs_1 s"
  "cores (log_event ev a c r s) = cores s"
  "stale_reinserts (log_event ev a c r s) = stale_reinserts s"
  "insertion_counter (log_event ev a c r s) = insertion_counter s"
  "time (log_event ev a c r s) = time s"
  "context_switches (log_event ev a c r s) = context_switches s"
  "task_map (log_event ev a c r s) = task_map s"
  "completed_tasks (log_event ev a c r s) = completed_tasks s"
  by (simp_all add: log_event_def Let_def)

lemma queued_log_event [simp]: "queued (log_event ev a c r s) = queued s"
  by (simp add: queued_def)

lemma clear_core_fields [simp]:
  "tasks (clear_core cid s) = tasks s"
  "fifo_1 (clear_core cid s) = fifo_1 s"
  "rr_1 (clear_core cid s) = rr_1 s"
  "idle (clear_core cid s) = idle s"
  "cfs_1 (clear_core cid s) = cfs_1 s"
  "cores (clear_core cid s) = (cores s)[cid := (None, 0)]"
  "stale_reinserts (clear_core cid s) = stale_reinserts s"
  "logs (clear_core cid s) = logs s"
  by (simp_all add: clear_core_def)

lemma queued_clear_core [simp]: "queued (clear_core cid s) = queued s"
  by (simp add: queued_def)

lemma cfs_insert_fields [simp]:
  "tasks (cfs_insert a s) = tasks s"
  "fifo_1 (cfs_insert a s) = fifo_1 s"
  "rr_1 (cfs_insert a s) = rr_1 s"
  "idle (cfs_insert a s) = idle s"
  "cfs_1 (cfs_insert a s) =
     heappush (cfs_1 s) (vruntime (tasks s ! a), insertion_counter s, pid (tasks s ! a), a)"
  "cores (cfs_insert a s) = cores s"
  "stale_reinserts (cfs_insert a s) = stale_reinserts s"
  "logs (cfs_insert a s) = logs s"
  "time (cfs_insert a s) = time s"
  by (simp_all add: cfs_insert_def Let_def)

lemma set_deque_fields [simp]:
  "tasks (set_deque c q s) = tasks s"
  "cores (set_deque c q s) = cores s"
  "cfs_1 (set_deque c q s) = cfs_1 s"
  "stale_reinserts (set_deque c q s) = stale_reinserts s"
  "logs (set_deque c q s) = logs s"
  "time (set_deque c q s) = time s"
  "context_switches (set_deque c q s) = context_switches s"
  by (cases c; simp)+

lemma set_queued_push_back:
  "c \<noteq> CFS \<Longrightarrow> set (queued (set_deque c (deque_of c s @ [a]) s)) = insert a (set (queued s))"
  by (cases c) (auto simp: queued_def)

lemma distinct_queued_push_back:
  "c \<noteq> CFS \<Longrightarrow> distinct (queued (set_deque c (deque_of c s @ [a]) s))
     \<longleftrightarrow> a \<notin> set (queued s) \<and> distinct (queued s)"
  by (cases c) (auto simp: queued_def)

lemma set_queued_cfs_insert:
  "set (queued (cfs_insert a s)) = insert a (set (queued s))"
  by (auto simp: queued_def entry_ref_def)

lemma distinct_queued_cfs_insert:
  "distinct (queued (cfs_insert a s)) \<longleftrightarrow> a \<notin> set (queued s) \<and> distinct (queued s)"
  by (auto simp: queued_def entry_ref_def)

lemma enqueue_task_fields [simp]:
  "tasks (enqueue_task a s) = tasks s"
  "cores (enqueue_task a s) = cores s"
  "stale_reinserts (enqueue_task a s) = stale_reinserts s"
  by (simp_all add: enqueue_task_def Let_def)

lemma set_queued_enqueue [simp]:
  "set (queued (enqueue_task a s)) = insert a (set (queued s))"
  by (simp add: enqueue_task_def Let_def set_queued_push_back set_queued_cfs_insert)

lemma distinct_queued_enqueue [simp]:
  "distinct (queued (enqueue_task a s)) \<longleftrightarrow> a \<notin> set (queued s) \<and> distinct (queued s)"
  by (simp add: enqueue_task_def Let_def distinct_queued_push_back distinct_queued_cfs_insert)

lemma task_work_ok_init: "task_work_ok (Task_init r u)"
  by (simp add: task_work_ok_def Task_init_def Let_def)

lemma classify_task_fields [simp]:
  "features (classify_task cfg t) = features t"
  "remaining (classify_task cfg t) = remaining t"
  "total_run (classify_task cfg t) = total_run t"
  "total_time (classify_task cfg t) = total_time t"
  by (auto simp: classify_task_def classify_failed_def Let_def split: prod.splits)

lemma task_work_ok_estimate:
  "task_work_ok t \<Longrightarrow> task_work_ok (estimate_remaining t)"
  by (auto simp: task_work_ok_def estimate_remaining_def)

lemma task_work_ok_cong:
  "remaining t' = remaining t \<Longrightarrow> total_run t' = total_run t \<Longrightarrow> total_time t' = total_time t
   \<Longrightarrow> task_work_ok t \<Longrightarrow> task_work_ok t'"
  by (simp add: task_work_ok_def)

lemma task_work_ok_admit_baseline:
  "task_work_ok t \<Longrightarrow> task_work_ok (admit_baseline_task cfg t)"
proof -
  assume w: "task_work_ok t"
  let ?t1 = "\<lambda>x. t\<lparr>assigned_scheduler := x\<rparr>"
  have "task_work_ok (estimate_remaining (?t1 x))" for x
    by (rule task_work_ok_estimate) (rule task_work_ok_cong [OF _ _ _ w], simp_all)
  then show ?thesis
    by (auto simp: admit_baseline_task_def Let_def task_work_ok_def)
qed

lemma task_work_ok_admit_ai:
  assumes "task_work_ok t" "admit_ai_task cfg t = Inr t1"
  shows "task_work_ok t1"
proof -
  let ?t3 = "estimate_remaining (compute_subqueue_score (classify_task cfg t))"
  have w3: "task_work_ok ?t3"
    by (rule task_work_ok_estimate) (rule task_work_ok_cong [OF _ _ _ assms(1)], simp_all)
  have "remaining t1 = remaining ?t3 \<and> total_run t1 = total_run ?t3
        \<and> total_time t1 = total_time ?t3"
    using assms(2)
    by (auto simp: admit_ai_task_def Let_def assign_scheduler_and_subqueue_def float_score_def
             split: if_splits sum.splits option.splits)
  then show ?thesis
    using w3 by (simp add: task_work_ok_def)
qed

lemma admit_result:
  assumes "admit cfg t s = Inr s'"
  obtains t1 where
    "s' = enqueue_task (length (tasks s))
            (log_event ADMIT (length (tasks s)) None None
               (s\<lparr>tasks := tasks s @ [t1],
                   task_map := dict_set (task_map s) (pid t1) (length (tasks s))\<rparr>))"
    "task_work_ok t \<longrightarrow> task_work_ok t1"
  using assms
  by (auto simp: admit_def Let_def task_work_ok_admit_baseline task_work_ok_admit_ai
           split: variant.splits sum.splits)

lemma placement_okI:
  assumes "length (cores s) = num_cores cfg" "distinct (queued s)"
    "\<And>a. a \<in> set (queued s) \<Longrightarrow> a < length (tasks s)"
    "\<And>i a. i < length (cores s) \<Longrightarrow> fst (cores s ! i) = Some a \<Longrightarrow> a < length (tasks s)"
    "\<And>i a. i < length (cores s) \<Longrightarrow> fst (cores s ! i) = Some a \<Longrightarrow> a \<notin> set (queued s)"
    "\<And>i j a. i < length (cores s) \<Longrightarrow> j < length (cores s) \<Longrightarrow> fst (cores s ! i) = Some a
        \<Longrightarrow> fst (cores s ! j) = Some a \<Longrightarrow> j = i"
  shows "placement_ok cfg s"
  using assms unfolding placement_ok_def by blast

lemma placement_okD:
  assumes "placement_ok cfg s"
  shows "length (cores s) = num_cores cfg" "distinct (queued s)"
    "\<And>a. a \<in> set (queued s) \<Longrightarrow> a < length (tasks s)"
    "\<And>i a. i < length (cores s) \<Longrightarrow> fst (cores s ! i) = Some a \<Longrightarrow> a < length (tasks s)"
    "\<And>i a. i < length (cores s) \<Longrightarrow> fst (cores s ! i) = Some a \<Longrightarrow> a \<notin> set (queued s)"
    "\<And>i j a. i < length (cores s) \<Longrightarrow> j < length (cores s) \<Longrightarrow> fst (cores s ! i) = Some a
        \<Longrightarrow> fst (cores s ! j) = Some a \<Longrightarrow> j = i"
  using assms unfolding placement_ok_def by blast+

lemma placement_ok_admit:
  assumes p: "placement_ok cfg s" and a: "admit cfg t s = Inr s'"
  shows "placement_ok cfg s'"
proof -
  from a obtain t1 where s': "s' = enqueue_task (length (tasks s))
            (log_event ADMIT (length (tasks s)) None None
               (s\<lparr>tasks := tasks s @ [t1],
                   task_map := dict_set (task_map s) (pid t1) (length (tasks s))\<rparr>))"
    by (rule admit_result)
  let ?s1 = "s\<lparr>tasks := tasks s @ [t1],
                   task_map := dict_set (task_map s) (pid t1) (length (tasks s))\<rparr>"
  have q1: "queued ?s1 = queued s" by (simp add: queued_def)
  have q: "set (queued s') = insert (length (tasks s)) (set (queued s))"
    and d: "distinct (queued s') \<longleftrightarrow> length (tasks s) \<notin> set (queued s) \<and> distinct (queued s)"
    and c: "cores s' = cores s" and ts: "tasks s' = tasks s @ [t1]"
    unfolding s' by (simp_all add: q1)
  note P = placement_okD [OF p]
  show ?thesis
  proof (rule placement_okI)
    show "length (cores s') = num_cores cfg" using P(1) c by simp
    show "distinct (queued s')" using P(2) P(3) d by blast
    show "\<And>a. a \<in> set (queued s') \<Longrightarrow> a < length (tasks s')"
      using P(3) q ts by (auto simp: less_Suc_eq)
    show "\<And>i a. i < length (cores s') \<Longrightarrow> fst (cores s' ! i) = Some a \<Longrightarrow> a < length (tasks s')"
      using P(4) c ts by (auto simp: less_Suc_eq)
    show "\<And>i a. i < length (cores s') \<Longrightarrow> fst (cores s' ! i) = Some a \<Longrightarrow> a \<notin> set (queued s')"
      using P(4) P(5) c q by fastforce
    show "\<And>i j a. i < length (cores s') \<Longrightarrow> j < length (cores s') \<Longrightarrow> fst (cores s' ! i) = Some a
        \<Longrightarrow> fst (cores s' ! j) = Some a \<Longrightarrow> j = i"
      using P(6) c by simp
  qed
qed

lemma work_ok_admit:
  assumes w: "work_ok s" and tw: "task_work_ok t" and a: "admit cfg t s = Inr s'"
  shows "work_ok s'"
proof -
  from a obtain t1 where s': "s' = enqueue_task (length (tasks s))
            (log_event ADMIT (length (tasks s)) None None
               (s\<lparr>tasks := tasks s @ [t1],
                   task_map := dict_set (task_map s) (pid t1) (length (tasks s))\<rparr>))"
    and w1: "task_work_ok t \<longrightarrow> task_work_ok t1"
    by (rule admit_result)
  let ?s1 = "s\<lparr>tasks := tasks s @ [t1],
                   task_map := dict_set (task_map s) (pid t1) (length (tasks s))\<rparr>"
  have q1: "queued ?s1 = queued s" by (simp add: queued_def)
  have q: "set (queued s') = insert (length (tasks s)) (set (queued s))"
    and c: "cores s' = cores s" and ts: "tasks s' = tasks s @ [t1]"
    unfolding s' by (simp_all add: q1)
  show ?thesis
    unfolding work_ok_def
  proof (intro allI impI)
    fix b assume b: "b < length (tasks s')" and tt: "1 \<le> total_time (tasks s' ! b)"
    show "remaining (tasks s' ! b) + total_run (tasks s' ! b) = total_time (tasks s' ! b) \<and>
          (b \<in> set (queued s') \<or> (\<exists>i<length (cores s'). fst (cores s' ! i) = Some b) \<longrightarrow>
           1 \<le> remaining (tasks s' ! b))"
    proof (cases "b < length (tasks s)")
      case True
      then have eq: "tasks s' ! b = tasks s ! b" by (simp add: ts nth_append)
      from True have "b \<in> set (queued s') \<longleftrightarrow> b \<in> set (queued s)" by (simp add: q)
      then show ?thesis
        using w True tt unfolding work_ok_def eq c by blast
    next
      case False
      with b have "b = length (tasks s)" by (simp add: ts)
      then have "tasks s' ! b = t1" by (simp add: ts)
      then show ?thesis
        using tw w1 tt by (simp add: task_work_ok_def)
    qed
  qed
qed

lemma sched_inv_admit:
  assumes "sched_inv cfg s" "task_work_ok t" "admit cfg t s = Inr s'"
  shows "sched_inv cfg s'"
  using assms placement_ok_admit [of cfg s t s'] work_ok_admit [of s t cfg s']
  by (simp add: sched_inv_def)

lemma cfs_pop_min_effect:
  assumes "cfs_pop_min s = Some (r, s1)"
  shows "tasks s1 = tasks s" "cores s1 = cores s" "time s1 = time s"
    "fifo_1 s1 = fifo_1 s" "rr_1 s1 = rr_1 s" "idle s1 = idle s"
    "r = None \<Longrightarrow> s1 = s"
    "\<And>a. r = Some a \<Longrightarrow>
       mset (map entry_ref (cfs_1 s)) = add_mset a (mset (map entry_ref (cfs_1 s1)))"
proof -
  from assms obtain h c n where
    p: "pop_loop (tasks s) (cfs_1 s) (insertion_counter s) (stale_reinserts s) = Some (r, h, c, n)"
    and s1: "s1 = s\<lparr>cfs_1 := h, insertion_counter := c, stale_reinserts := n\<rparr>"
    by (auto simp: cfs_pop_min_def split: option.splits)
  note e = pop_loop_effect [OF p]
  show "tasks s1 = tasks s" "cores s1 = cores s" "time s1 = time s"
    "fifo_1 s1 = fifo_1 s" "rr_1 s1 = rr_1 s" "idle s1 = idle s"
    by (simp_all add: s1)
  show "s1 = s" if "r = None"
    using e that by (simp add: s1)
  show "mset (map entry_ref (cfs_1 s)) = add_mset a (mset (map entry_ref (cfs_1 s1)))"
    if "r = Some a" for a
    using e that by (simp add: s1)
qed

lemma dequeue_task_mset:
  assumes d: "dequeue_task sched s = Some (r, s1)"
  shows "tasks s1 = tasks s \<and> cores s1 = cores s \<and> time s1 = time s
    \<and> (r = None \<longrightarrow> s1 = s)
    \<and> (\<forall>a. r = Some a \<longrightarrow> mset (queued s) = add_mset a (mset (queued s1)))"
proof (cases sched)
  case CFS
  then have c: "cfs_pop_min s = Some (r, s1)" using d by (simp add: dequeue_task_def)
  note e = cfs_pop_min_effect [OF c]
  show ?thesis
    using e(1-7) e(8) by (simp add: queued_def)
next
  case FIFO
  then show ?thesis
    using d by (cases "fifo_1 s") (auto simp: dequeue_task_def queued_def)
next
  case RR
  then show ?thesis
    using d by (cases "rr_1 s") (auto simp: dequeue_task_def queued_def)
next
  case IDLE
  then show ?thesis
    using d by (cases "idle s") (auto simp: dequeue_task_def queued_def)
qed

lemma dequeue_task_effect:
  assumes d: "dequeue_task sched s = Some (r, s1)"
  shows "tasks s1 = tasks s" "cores s1 = cores s" "time s1 = time s"
    "distinct (queued s) \<Longrightarrow> distinct (queued s1)"
    "set (queued s1) \<subseteq> set (queued s)"
    "\<And>a. r = Some a \<Longrightarrow> a \<in> set (queued s)"
    "\<And>a. r = Some a \<Longrightarrow> distinct (queued s) \<Longrightarrow> a \<notin> set (queued s1)"
    "r = None \<Longrightarrow> s1 = s"
proof -
  note m = dequeue_task_mset [OF d]
  show "tasks s1 = tasks s" "cores s1 = cores s" "time s1 = time s" "r = None \<Longrightarrow> s1 = s"
    using m by simp_all
  have some: "mset (queued s) = mset (a # queued s1)" if "r = Some a" for a
    using m that by simp
  have dist: "distinct (queued s) = distinct (a # queued s1)" if "r = Some a" for a
    using some [OF that] by (rule mset_eq_imp_distinct_iff)
  have sets: "set (queued s) = set (a # queued s1)" if "r = Some a" for a
    using some [OF that] by (rule mset_eq_setD)
  show "distinct (queued s1)" if "distinct (queued s)"
    using that dist m by (cases r) auto
  show "set (queued s1) \<subseteq> set (queued s)"
    using sets m by (cases r) auto
  show "a \<in> set (queued s)" if "r = Some a" for a
    using sets [OF that] by simp
  show "a \<notin> set (queued s1)" if "r = Some a" "distinct (queued s)" for a
    using dist [OF that(1)] that(2) by simp
qed

lemma dispatch_to_core_none:
  assumes "dispatch_to_core cfg cid sched s = Inr s'" "dequeue_task sched s = Some (None, s1)"
  shows "s' = s1"
  using assms by (simp add: dispatch_to_core_def)

lemma dispatch_to_core_some:
  assumes d: "dispatch_to_core cfg cid sched s = Inr s'"
    and q: "dequeue_task sched s = Some (Some a, s1)"
  shows "\<exists>t1 q. same_work (tasks s1 ! a) t1
        \<and> tasks s' = (tasks s1)[a := t1] \<and> cores s' = (cores s1)[cid := (Some a, q)]
        \<and> queued s' = queued s1"
proof -
  from d q obtain x where
    s': "s' = log_event DISPATCH a (Some cid) None
          (s1\<lparr>tasks := (tasks s1)[a := (tasks s1 ! a)
                   \<lparr>quantum := Some x,
                      first_start := case first_start (tasks s1 ! a) of
                        None \<Rightarrow> Some (time s1) | Some f \<Rightarrow> Some f\<rparr>],
                cores := (cores s1)[cid := (Some a, x)],
                context_switches := Suc (context_switches s1)\<rparr>)"
    by (auto simp: dispatch_to_core_def Let_def split: sum.splits)
  let ?t1 = "(tasks s1 ! a)\<lparr>quantum := Some x,
                      first_start := case first_start (tasks s1 ! a) of
                        None \<Rightarrow> Some (time s1) | Some f \<Rightarrow> Some f\<rparr>"
  have "same_work (tasks s1 ! a) ?t1
        \<and> tasks s' = (tasks s1)[a := ?t1] \<and> cores s' = (cores s1)[cid := (Some a, x)]
        \<and> queued s' = queued s1"
    unfolding s' by (simp add: same_work_def queued_def)
  then show ?thesis by blast
qed

lemma dispatch_to_core_dequeued:
  assumes "dispatch_to_core cfg cid sched s = Inr s'"
  obtains r s1 where "dequeue_task sched s = Some (r, s1)"
  using assms by (cases "dequeue_task sched s") (auto simp: dispatch_to_core_def)

lemma nth_upd: "(xs[a := x]) ! b = (if b = a \<and> a < length xs then x else xs ! b)"
  by (cases "a < length xs") (auto simp: nth_list_update list_update_beyond)

lemma sched_invD:
  assumes "sched_inv cfg s"
  shows "placement_ok cfg s" "work_ok s"
  using assms by (simp_all add: sched_inv_def)

lemma work_okD:
  assumes "work_ok s" "a < length (tasks s)" "1 \<le> total_time (tasks s ! a)"
  shows "remaining (tasks s ! a) + total_run (tasks s ! a) = total_time (tasks s ! a)"
    "a \<in> set (queued s) \<Longrightarrow> 1 \<le> remaining (tasks s ! a)"
    "\<And>i. i < length (cores s) \<Longrightarrow> fst (cores s ! i) = Some a \<Longrightarrow> 1 \<le> remaining (tasks s ! a)"
  using assms unfolding work_ok_def by blast+

lemma work_okI:
  assumes "\<And>a. a < length (tasks s) \<Longrightarrow> 1 \<le> total_time (tasks s ! a) \<Longrightarrow>
      remaining (tasks s ! a) + total_run (tasks s ! a) = total_time (tasks s ! a)"
    "\<And>a. a < length (tasks s) \<Longrightarrow> 1 \<le> total_time (tasks s ! a) \<Longrightarrow> a \<in> set (queued s) \<Longrightarrow>
      1 \<le> remaining (tasks s ! a)"
    "\<And>a i. a < length (tasks s) \<Longrightarrow> 1 \<le> total_time (tasks s ! a) \<Longrightarrow> i < length (cores s) \<Longrightarrow>
      fst (cores s ! i) = Some a \<Longrightarrow> 1 \<le> remaining (tasks s ! a)"
  shows "work_ok s"
  using assms unfolding work_ok_def by blast

lemma cfs_entry_queued: "(vr, c, p, a) \<in> set (cfs_1 s) \<Longrightarrow> a \<in> set (queued s)"
  by (force simp: queued_def entry_ref_def)

lemma inv_take:
  assumes inv: "sched_inv cfg s"
    and cid: "cid < length (cores s)" "fst (cores s ! cid) = None"
    and a: "a \<in> set (queued s)" "a \<notin> set (queued s')"
    and q: "distinct (queued s')" "set (queued s') \<subseteq> set (queued s)"
    and ts: "tasks s' = (tasks s)[a := t1]" "same_work (tasks s ! a) t1"
    and cs: "cores s' = (cores s)[cid := (Some a, q0)]"
  shows "sched_inv cfg s'"
proof -
  note I = sched_invD [OF inv]
  note P = placement_okD [OF I(1)]
  have al: "a < length (tasks s)" using P(3) a(1) .
  have core: "fst (cores s' ! i) = (if i = cid then Some a else fst (cores s ! i))"
    if "i < length (cores s)" for i
    using that cid(1) by (simp add: cs nth_upd)
  have noa: "fst (cores s ! i) \<noteq> Some a" if "i < length (cores s)" for i
    using P(5) [OF that] a(1) by blast
  have wk: "remaining (tasks s' ! b) = remaining (tasks s ! b)"
    "total_run (tasks s' ! b) = total_run (tasks s ! b)"
    "total_time (tasks s' ! b) = total_time (tasks s ! b)" for b
    using ts by (auto simp: nth_upd same_work_def)
  have len: "length (tasks s') = length (tasks s)" by (simp add: ts(1))
  have pl: "placement_ok cfg s'"
  proof (rule placement_okI)
    show "length (cores s') = num_cores cfg" using P(1) cs by simp
    show "distinct (queued s')" by (rule q(1))
    show "\<And>b. b \<in> set (queued s') \<Longrightarrow> b < length (tasks s')"
      using P(3) q(2) ts(1) by auto
    show "\<And>i b. i < length (cores s') \<Longrightarrow> fst (cores s' ! i) = Some b \<Longrightarrow> b < length (tasks s')"
      using P(4) al core ts(1) cs by (auto split: if_splits)
    show "\<And>i b. i < length (cores s') \<Longrightarrow> fst (cores s' ! i) = Some b \<Longrightarrow> b \<notin> set (queued s')"
      using P(5) a(2) q(2) core cs by (auto split: if_splits)
    show "\<And>i j b. i < length (cores s') \<Longrightarrow> j < length (cores s') \<Longrightarrow>
        fst (cores s' ! i) = Some b \<Longrightarrow> fst (cores s' ! j) = Some b \<Longrightarrow> j = i"
      using P(6) noa core cs by (auto split: if_splits)
  qed
  have wo: "work_ok s'"
  proof (rule work_okI)
    fix b assume b: "b < length (tasks s')" "1 \<le> total_time (tasks s' ! b)"
    then have b': "b < length (tasks s)" "1 \<le> total_time (tasks s ! b)"
      using len by (simp_all add: wk)
    show "remaining (tasks s' ! b) + total_run (tasks s' ! b) = total_time (tasks s' ! b)"
      using work_okD(1) [OF I(2) b'] by (simp add: wk)
    show "1 \<le> remaining (tasks s' ! b)" if "b \<in> set (queued s')"
      using work_okD(2) [OF I(2) b'] that q(2) by (auto simp: wk)
    show "1 \<le> remaining (tasks s' ! b)" if "i < length (cores s')" "fst (cores s' ! i) = Some b" for i
    proof (cases "i = cid")
      case True
      with that core [of i] cs have "b = a" by simp
      then show ?thesis using work_okD(2) [OF I(2) b'] a(1) by (simp add: wk)
    next
      case False
      with that core [of i] cs have "i < length (cores s)" "fst (cores s ! i) = Some b" by simp_all
      then show ?thesis using work_okD(3) [OF I(2) b'] by (simp add: wk)
    qed
  qed
  show ?thesis
    using pl wo by (simp add: sched_inv_def)
qed

lemma inv_ran:
  assumes inv: "sched_inv cfg s"
    and cid: "cid < length (cores s)" "fst (cores s ! cid) = Some a"
    and ts: "tasks s' = (tasks s)[a := t2]" "worked (tasks s ! a) t2"
    and cs: "cores s' = (cores s)[cid := (x, l)]"
    and x: "x = Some a \<and> 0 < remaining t2 \<or> x = None"
    and qs: "set (queued s') = set (queued s) \<and> distinct (queued s')
        \<or> (x = None \<and> 0 < remaining t2 \<and> set (queued s') = insert a (set (queued s))
            \<and> (distinct (queued s') \<longleftrightarrow> a \<notin> set (queued s) \<and> distinct (queued s)))"
  shows "sched_inv cfg s'"
proof -
  note I = sched_invD [OF inv]
  note P = placement_okD [OF I(1)]
  have al: "a < length (tasks s)" using P(4) cid .
  have anq: "a \<notin> set (queued s)" using P(5) cid .
  have len: "length (tasks s') = length (tasks s)" by (simp add: ts(1))
  have ta: "tasks s' ! a = t2" using al by (simp add: ts(1))
  have tb: "tasks s' ! b = tasks s ! b" if "b \<noteq> a" for b
    using that by (simp add: ts(1) nth_upd)
  have tt: "total_time (tasks s' ! b) = total_time (tasks s ! b)" for b
    using ts by (cases "b = a") (auto simp: nth_upd worked_def)
  have core: "fst (cores s' ! i) = (if i = cid then x else fst (cores s ! i))"
    if "i < length (cores s)" for i
    using that cid(1) by (simp add: cs nth_upd)
  have only: "i = cid" if "i < length (cores s)" "fst (cores s ! i) = Some a" for i
    using P(6) [OF cid(1) that(1) cid(2) that(2)] .
  have qsub: "set (queued s') \<subseteq> insert a (set (queued s))"
    using qs by auto
  have qa: "a \<in> set (queued s') \<Longrightarrow> x = None \<and> 0 < remaining t2"
    using qs anq by auto
  have pl: "placement_ok cfg s'"
  proof (rule placement_okI)
    show "length (cores s') = num_cores cfg" using P(1) cs by simp
    show "distinct (queued s')" using qs P(2) anq by auto
    show "\<And>b. b \<in> set (queued s') \<Longrightarrow> b < length (tasks s')"
      using P(3) qsub al len by auto
    show "\<And>i b. i < length (cores s') \<Longrightarrow> fst (cores s' ! i) = Some b \<Longrightarrow> b < length (tasks s')"
      using P(4) al core len cs x by (auto split: if_splits)
    show "b \<notin> set (queued s')" if "i < length (cores s')" "fst (cores s' ! i) = Some b" for i b
    proof (cases "i = cid")
      case True
      with that core [of i] cs have "x = Some b" by simp
      with x have "b = a" "x = Some a" by auto
      then show ?thesis using qa by auto
    next
      case False
      with that core [of i] cs have i: "i < length (cores s)" "fst (cores s ! i) = Some b"
        by simp_all
      then have "b \<noteq> a" using only False by blast
      moreover have "b \<notin> set (queued s)" using P(5) i .
      ultimately show ?thesis using qsub by auto
    qed
    show "j = i" if "i < length (cores s')" "j < length (cores s')"
        "fst (cores s' ! i) = Some b" "fst (cores s' ! j) = Some b" for i j b
    proof -
      have ij: "i < length (cores s)" "j < length (cores s)" using that cs by simp_all
      show ?thesis
      proof (cases "i = cid")
        case True
        with that(3) core [OF ij(1)] x have b: "b = a" by auto
        show ?thesis
        proof (cases "j = cid")
          case True
          with \<open>i = cid\<close> show ?thesis by simp
        next
          case False
          with that(4) core [OF ij(2)] b have "fst (cores s ! j) = Some a" by simp
          with only ij False show ?thesis by blast
        qed
      next
        case False
        with that(3) core [OF ij(1)] have bi: "fst (cores s ! i) = Some b" by simp
        show ?thesis
        proof (cases "j = cid")
          case True
          with that(4) core [OF ij(2)] x have "b = a" by auto
          with bi only ij False show ?thesis by blast
        next
          case False
          with that(4) core [OF ij(2)] have "fst (cores s ! j) = Some b" by simp
          with P(6) [OF ij(1) ij(2) bi] show ?thesis by simp
        qed
      qed
    qed
  qed
  have wo: "work_ok s'"
  proof (rule work_okI)
    fix b assume b: "b < length (tasks s')" "1 \<le> total_time (tasks s' ! b)"
    then have b': "b < length (tasks s)" "1 \<le> total_time (tasks s ! b)"
      using len by (simp_all add: tt)
    have olda: "1 \<le> remaining (tasks s ! a)" if "b = a"
      using work_okD(3) [OF I(2) b' cid(1)] cid(2) that by simp
    show "remaining (tasks s' ! b) + total_run (tasks s' ! b) = total_time (tasks s' ! b)"
    proof (cases "b = a")
      case True
      then show ?thesis
        using work_okD(1) [OF I(2) b'] olda ts(2) ta by (simp add: worked_def)
    next
      case False
      then show ?thesis using work_okD(1) [OF I(2) b'] tb by simp
    qed
    show "1 \<le> remaining (tasks s' ! b)" if "b \<in> set (queued s')"
    proof (cases "b = a")
      case True
      then show ?thesis using qa that ta by auto
    next
      case False
      with that qsub have "b \<in> set (queued s)" by auto
      then show ?thesis using work_okD(2) [OF I(2) b'] tb False by simp
    qed
    show "1 \<le> remaining (tasks s' ! b)" if "i < length (cores s')" "fst (cores s' ! i) = Some b" for i
    proof (cases "b = a")
      case True
      have i: "i < length (cores s)" using that cs by simp
      have "x = Some a"
      proof (cases "i = cid")
        case True
        with that(2) core [OF i] \<open>b = a\<close> show ?thesis by simp
      next
        case False
        with that(2) core [OF i] \<open>b = a\<close> have "fst (cores s ! i) = Some a" by simp
        with only i False show ?thesis by blast
      qed
      with x have "0 < remaining t2" by auto
      then show ?thesis using True ta by simp
    next
      case False
      have i: "i < length (cores s)" using that cs by simp
      have "fst (cores s ! i) = Some b"
      proof (cases "i = cid")
        case True
        with that(2) core [OF i] x False show ?thesis by auto
      next
        case False
        with that(2) core [OF i] show ?thesis by simp
      qed
      then show ?thesis using work_okD(3) [OF I(2) b' i] tb \<open>b \<noteq> a\<close> by simp
    qed
  qed
  show ?thesis
    using pl wo by (simp add: sched_inv_def)
qed

lemma update_vruntime_effect:
  assumes "update_vruntime cfg t = Inr t'"
  shows "remaining t' = remaining t" "total_run t' = total_run t" "total_time t' = total_time t"
    "assigned_scheduler t' = assigned_scheduler t"
  using assms
  by (auto simp: update_vruntime_def Let_def float_score_def
           split: variant.splits sum.splits option.splits if_splits)

lemma quantum_expired_fields [simp]:
  "tasks (quantum_expired cid a s) = tasks s"
  "cores (quantum_expired cid a s) = (cores s)[cid := (None, 0)]"
  by (simp_all add: quantum_expired_def Let_def split: option.splits sched.splits)

lemma quantum_expired_queued:
  "(set (queued (quantum_expired cid a s)) = set (queued s)
      \<and> (distinct (queued (quantum_expired cid a s)) \<longleftrightarrow> distinct (queued s)))
   \<or> (set (queued (quantum_expired cid a s)) = insert a (set (queued s))
       \<and> (distinct (queued (quantum_expired cid a s)) \<longleftrightarrow>
            a \<notin> set (queued s) \<and> distinct (queued s)))"
proof (cases "assigned_scheduler (tasks s ! a)")
  case None
  then show ?thesis by (simp add: quantum_expired_def)
next
  case (Some c)
  then show ?thesis
    by (cases c) (auto simp: quantum_expired_def Let_def queued_def entry_ref_def)
qed

lemma queued_updates [simp]:
  "queued (s\<lparr>tasks := ts\<rparr>) = queued s"
  "queued (s\<lparr>cores := cs\<rparr>) = queued s"
  "queued (s\<lparr>completed_tasks := d\<rparr>) = queued s"
  "queued (s\<lparr>context_switches := n\<rparr>) = queued s"
  "queued (s\<lparr>time := t\<rparr>) = queued s"
  by (simp_all add: queued_def)

lemma complete_task_fields [simp]:
  "tasks (complete_task cid a s) = (tasks s)[a := (tasks s ! a)\<lparr>completion_time := Some (time s)\<rparr>]"
  "cores (complete_task cid a s) = (cores s)[cid := (None, 0)]"
  "cfs_1 (complete_task cid a s) = cfs_1 s"
  "queued (complete_task cid a s) = queued s"
  by (simp_all add: complete_task_def Let_def queued_def)

lemma run_task_one_tick_worked:
  assumes "run_task_one_tick cfg t = Inr t2"
  shows "worked t t2"
  using assms update_vruntime_effect
    [of cfg "t\<lparr>remaining := max 0 (remaining t - 1), total_run := total_run t + 1\<rparr>" t2]
  by (auto simp: run_task_one_tick_def Let_def worked_def split: if_splits)

lemma run_one_tick_idle:
  "fst (cores s ! cid) = None \<Longrightarrow> run_one_tick_on_core cfg cid s = Inr s"
  by (cases "cores s ! cid") (simp add: run_one_tick_on_core_def)

lemma run_one_tick_effect:
  assumes r: "run_one_tick_on_core cfg cid s = Inr s'"
    and c: "cores s ! cid = (Some a, left)" and al: "a < length (tasks s)"
  shows "\<exists>t2 x l. ran_effect cid a s s' t2 x l"
proof -
  let ?tl = "max 0 (left - 1)"
  from r c obtain t2 where uv: "run_task_one_tick cfg (tasks s ! a) = Inr t2"
    by (cases "run_task_one_tick cfg (tasks s ! a)") (simp_all add: run_one_tick_on_core_def)
  let ?s2 = "log_event RUN a (Some cid) None
              (s\<lparr>tasks := (tasks s)[a := t2], cores := (cores s)[cid := (Some a, ?tl)]\<rparr>)"
  have e1: "s' = complete_task cid a ?s2" if "remaining t2 \<le> 0"
    using r that by (simp add: run_one_tick_on_core_def c uv Let_def)
  have e2: "s' = quantum_expired cid a ?s2" if "\<not> remaining t2 \<le> 0" "?tl \<le> 0"
    using r that by (simp add: run_one_tick_on_core_def c uv Let_def)
  have e3: "s' = ?s2" if "\<not> remaining t2 \<le> 0" "\<not> ?tl \<le> 0"
    using r that by (simp add: run_one_tick_on_core_def c uv Let_def)
  have w: "worked (tasks s ! a) t2"
    using uv by (rule run_task_one_tick_worked)
  have q1: "queued ?s2 = queued s"
    by simp
  have ta: "tasks ?s2 ! a = t2" using al by simp
  show ?thesis
  proof (cases "remaining t2 \<le> 0")
    case True
    let ?t2 = "t2\<lparr>completion_time := Some (time ?s2)\<rparr>"
    have e: "s' = complete_task cid a ?s2" using True by (rule e1)
    have "ran_effect cid a s s' ?t2 None 0"
      unfolding ran_effect_def e using w al by (simp add: worked_def)
    then show ?thesis by blast
  next
    case False
    note pos = False
    show ?thesis
    proof (cases "?tl \<le> 0")
      case True
      have e: "s' = quantum_expired cid a ?s2" using pos True by (rule e2)
      have q: "set (queued s') = set (queued s)
            \<and> (distinct (queued s') \<longleftrightarrow> distinct (queued s))
          \<or> (set (queued s') = insert a (set (queued s))
              \<and> (distinct (queued s') \<longleftrightarrow> a \<notin> set (queued s) \<and> distinct (queued s)))"
        using quantum_expired_queued [of cid a ?s2] unfolding e q1 by simp
      have f: "tasks s' = (tasks s)[a := t2]" "cores s' = (cores s)[cid := (None, 0)]"
        unfolding e by simp_all
      have "ran_effect cid a s s' t2 None 0"
        unfolding ran_effect_def using f w pos q by simp
      then show ?thesis by blast
    next
      case False
      have e: "s' = ?s2" using pos False by (rule e3)
      have "ran_effect cid a s s' t2 (Some a) ?tl"
        unfolding ran_effect_def e using w pos by simp
      then show ?thesis by blast
    qed
  qed
qed

lemma sched_inv_run_one_tick:
  assumes inv: "sched_inv cfg s" and cid: "cid < length (cores s)"
    and r: "run_one_tick_on_core cfg cid s = Inr s'"
  shows "sched_inv cfg s'"
proof (cases "cores s ! cid")
  case (Pair x left)
  show ?thesis
  proof (cases x)
    case None
    with Pair r run_one_tick_idle [of s cid cfg] inv show ?thesis by simp
  next
    case (Some a)
    note P = placement_okD [OF sched_invD(1) [OF inv]]
    have c: "cores s ! cid = (Some a, left)" using Pair Some by simp
    then have f: "fst (cores s ! cid) = Some a" by simp
    have al: "a < length (tasks s)" using P(4) [OF cid f] .
    from run_one_tick_effect [OF r c al] obtain t2 x l where
      e: "ran_effect cid a s s' t2 x l"
      by blast
    note E = e [unfolded ran_effect_def]
    have e1: "tasks s' = (tasks s)[a := t2]" and e2: "worked (tasks s ! a) t2"
      and e3: "cores s' = (cores s)[cid := (x, l)]"
      and e5: "x = Some a \<and> 0 < remaining t2 \<or> x = None"
      using E by blast+
    have q: "set (queued s') = set (queued s) \<and> distinct (queued s')
        \<or> (x = None \<and> 0 < remaining t2 \<and> set (queued s') = insert a (set (queued s))
            \<and> (distinct (queued s') \<longleftrightarrow> a \<notin> set (queued s) \<and> distinct (queued s)))"
      using E P(2) by blast
    show ?thesis
      by (rule inv_ran [OF inv cid f e1 e2 e3 e5 q])
  qed
qed

lemma sched_inv_dispatch:
  assumes inv: "sched_inv cfg s" and cid: "cid < length (cores s)"
    and idle: "fst (cores s ! cid) = None"
    and d: "dispatch_to_core cfg cid sched s = Inr s'"
  shows "sched_inv cfg s'"
proof -
  from d obtain r s1 where q: "dequeue_task sched s = Some (r, s1)"
    by (rule dispatch_to_core_dequeued)
  note I = sched_invD [OF inv]
  note P = placement_okD [OF I(1)]
  note D = dequeue_task_effect [OF q]
  show ?thesis
  proof (cases r)
    case None
    then have "s' = s1" using d q by (simp add: dispatch_to_core_none)
    with D(8) None inv show ?thesis by simp
  next
    case (Some a)
    from dispatch_to_core_some [OF d q [unfolded Some]] obtain t1 q0 where
      e: "same_work (tasks s1 ! a) t1"
        "tasks s' = (tasks s1)[a := t1]" "cores s' = (cores s1)[cid := (Some a, q0)]"
        "queued s' = queued s1"
      by blast
    have a1: "a \<in> set (queued s)" using D(6) Some by simp
    have a2: "a \<notin> set (queued s')" using D(7) [OF Some P(2)] e(4) by simp
    have q1: "distinct (queued s')" using D(4) [OF P(2)] e(4) by simp
    have q2: "set (queued s') \<subseteq> set (queued s)" using D(5) e(4) by simp
    have t1: "tasks s' = (tasks s)[a := t1]" using e(2) D(1) by simp
    have t2: "same_work (tasks s ! a) t1" using e(1) D(1) by simp
    have c: "cores s' = (cores s)[cid := (Some a, q0)]" using e(3) D(2) by simp
    show ?thesis
      by (rule inv_take [OF inv cid idle a1 a2 q1 q2 t1 t2 c])
  qed
qed

lemma sched_inv_length_cores: "sched_inv cfg s \<Longrightarrow> length (cores s) = num_cores cfg"
  by (simp add: sched_inv_def placement_ok_def)

lemma sched_inv_core_iteration:
  assumes inv: "sched_inv cfg s" and cid: "cid < num_cores cfg"
    and r: "core_iteration cfg cid s = Inr s'"
  shows "sched_inv cfg s'"
proof -
  have len: "cid < length (cores s)" using cid sched_inv_length_cores [OF inv] by simp
  obtain s1 where s1: "sched_inv cfg s1" "run_one_tick_on_core cfg cid s1 = Inr s'"
  proof (cases "fst (cores s ! cid) = None")
    case False
    with r have "run_one_tick_on_core cfg cid s = Inr s'"
      by (simp add: core_iteration_def)
    with inv that show ?thesis by blast
  next
    case True
    note idle = True
    show ?thesis
    proof (cases "pick_task_for_core cfg cid s")
      case None
      with r idle have "run_one_tick_on_core cfg cid s = Inr s'"
        by (simp add: core_iteration_def)
      with inv that show ?thesis by blast
    next
      case (Some sched)
      show ?thesis
      proof (cases "dispatch_to_core cfg cid sched s")
        case (Inl e)
        with r idle Some show ?thesis by (simp add: core_iteration_def)
      next
        case (Inr s1)
        with r idle Some have "run_one_tick_on_core cfg cid s1 = Inr s'"
          by (simp add: core_iteration_def)
        moreover have "sched_inv cfg s1"
          by (rule sched_inv_dispatch [OF inv len idle Inr])
        ultimately show ?thesis using that by blast
      qed
    qed
  qed
  have "cid < length (cores s1)" using cid sched_inv_length_cores [OF s1(1)] by simp
  then show ?thesis by (rule sched_inv_run_one_tick [OF s1(1) _ s1(2)])
qed

lemma sched_inv_for_cores:
  "sched_inv cfg s \<Longrightarrow> \<forall>cid \<in> set cids. cid < num_cores cfg
     \<Longrightarrow> for_cores cfg cids s = Inr s' \<Longrightarrow> sched_inv cfg s'"
proof (induction cids arbitrary: s)
  case Nil
  then show ?case by simp
next
  case (Cons cid cids)
  show ?case
  proof (cases "core_iteration cfg cid s")
    case (Inl e)
    with Cons.prems(3) show ?thesis by simp
  next
    case (Inr s1)
    have "sched_inv cfg s1"
      using Cons.prems(1,2) Inr by (auto intro: sched_inv_core_iteration)
    moreover have "for_cores cfg cids s1 = Inr s'" using Cons.prems(3) Inr by simp
    ultimately show ?thesis using Cons.IH Cons.prems(2) by simp
  qed
qed

lemma sched_inv_time [simp]: "sched_inv cfg (s\<lparr>time := t\<rparr>) = sched_inv cfg s"
  by (simp add: sched_inv_def placement_ok_def work_ok_def queued_def)

lemma sched_inv_tick:
  assumes "sched_inv cfg s" "tick cfg t s = Inr s'"
  shows "sched_inv cfg s'"
  using assms sched_inv_for_cores [of cfg "s\<lparr>time := t\<rparr>" "[0..<num_cores cfg]" s']
  by (simp add: tick_def)

lemma sched_inv_step:
  assumes "sched_inv cfg s" "step cfg x s = Inr s'"
  shows "sched_inv cfg s'"
proof (cases x)
  case (Admit r u)
  with assms show ?thesis
    using sched_inv_admit [OF assms(1) task_work_ok_init, of r u s'] by simp
next
  case (Tick t)
  with assms show ?thesis using sched_inv_tick [of cfg s t s'] by simp
qed

lemma sched_inv_run:
  "sched_inv cfg s \<Longrightarrow> run cfg xs s = Inr s' \<Longrightarrow> sched_inv cfg s'"
proof (induction xs arbitrary: s)
  case Nil
  then show ?case by simp
next
  case (Cons x xs)
  show ?case
  proof (cases "step cfg x s")
    case (Inl e)
    with Cons.prems(2) show ?thesis by simp
  next
    case (Inr s1)
    have "sched_inv cfg s1" using Cons.prems(1) Inr by (rule sched_inv_step)
    moreover have "run cfg xs s1 = Inr s'" using Cons.prems(2) Inr by simp
    ultimately show ?thesis by (rule Cons.IH)
  qed
qed

lemma sched_inv_init: "sched_inv cfg (init_state cfg)"
  by (simp add: sched_inv_def placement_ok_def work_ok_def queued_def init_state_def)

section \<open>Reachable states\<close>

text \<open>
  C4, for the tasks that have work: in every state reached from the initial one by
  admissions and ticks, in either variant, every task of the store (every task ever
  admitted) that was constructed with \<open>total_time \<ge> 1\<close> satisfies
  \<open>remaining + total_run = total_time\<close>.
\<close>

theorem work_conservation:
  assumes "run cfg ops (init_state cfg) = Inr s"
  shows "\<forall>a < length (tasks s). 1 \<le> total_time (tasks s ! a) \<longrightarrow>
           remaining (tasks s ! a) + total_run (tasks s ! a) = total_time (tasks s ! a)"
proof -
  have inv: "sched_inv cfg s"
    using sched_inv_init assms by (rule sched_inv_run)
  show ?thesis
    using work_okD(1) [OF sched_invD(2) [OF inv]] by blast
qed

theorem work_conservation_witness:
  "run (ai_config 1 (witness_classifier ''Batch'')) cfs_pair_ops
       (init_state (ai_config 1 (witness_classifier ''Batch'')))
     = Inr (projr (run (ai_config 1 (witness_classifier ''Batch'')) cfs_pair_ops
                    (init_state (ai_config 1 (witness_classifier ''Batch'')))))
   \<and> work_triples (run (ai_config 1 (witness_classifier ''Batch'')) cfs_pair_ops
                    (init_state (ai_config 1 (witness_classifier ''Batch''))))
       = [(98, 2, 100), (100, 0, 100)]"
proof -
  let ?c = "ai_config 1 (witness_classifier ''Batch'')"
  let ?r = "run ?c cfs_pair_ops (init_state ?c)"
  have "\<not> isl ?r" by code_simp
  then have r: "?r = Inr (projr ?r)" by (cases ?r) simp_all
  have t: "work_triples ?r = [(98, 2, 100), (100, 0, 100)]"
    by code_simp
  show ?thesis
    using work_conservation [OF r] r t by simp
qed

text \<open>
  C4 as stated fails for a task without work: a row with neither
  \<open>Total_Time_Ticks\<close> nor \<open>se.sum_exec_runtime\<close> gives a task with \<open>total_time = 0\<close>,
  and admission, in either variant, sets its \<open>remaining\<close> to 1 and leaves
  \<open>total_time\<close> as it is; immediately after admission \<open>remaining + total_run\<close> is 1.
\<close>

theorem work_conservation_fails_without_work:
  "work_triples (run (baseline_config 1) no_work_ops (init_state (baseline_config 1))) = [(1, 0, 0)]
   \<and> work_triples (run (ai_config 1 (witness_classifier ''Batch'')) no_work_ops
        (init_state (ai_config 1 (witness_classifier ''Batch'')))) = [(1, 0, 0)]
   \<and> \<not> list_all (\<lambda>(r, n, tt). r + n = tt)
         (work_triples (run (baseline_config 1) no_work_ops (init_state (baseline_config 1))))"
  by code_simp

lemma tick_never_returns:
  assumes h: "cfs_1 s = [(NaN, 0, 1, 0)]" and v: "vruntime (tasks s ! 0) = NaN"
    and c: "cores s = [(None, 0)]" and q: "fifo_1 s = []" "rr_1 s = []"
    and n: "num_cores cfg = 1" and o: "core_priority_order cfg 0 = Some [FIFO, RR, CFS, IDLE]"
  shows "tick cfg t s = Inl Never_returns"
proof -
  let ?s = "s\<lparr>time := t\<rparr>"
  have "cfs_pop_min ?s = None"
    by (rule cfs_pop_min_never_returns) (simp_all add: h v entry_ref_def)
  then have d: "dequeue_task CFS ?s = None"
    by (simp add: dequeue_task_def)
  have p: "pick_task_for_core cfg 0 ?s = Some CFS"
    by (simp add: pick_task_for_core_def o h q)
  have "core_iteration cfg 0 ?s = Inl Never_returns"
    by (simp add: core_iteration_def c p dispatch_to_core_def d)
  then show ?thesis
    by (simp add: tick_def n)
qed

text \<open>
  C10, at the input of C6: the state after the admission of the NaN row is reached by
  \<open>admit\<close>. Its task has exactly one heap entry, and the snapshot of that entry is
  the live vruntime of the task (both are NaN); yet the entry is stale under the test of
  \<open>_cfs_pop_min\<close>, which no NaN passes, and the first tick, which executes the
  reinsertion branch again and again, never returns, in either variant.
\<close>

theorem nan_entry_stale_and_tick_never_returns:
  "run (baseline_config 1) [Admit nan_row []] (init_state (baseline_config 1))
     = Inr (nan_admitted (baseline_config 1))
   \<and> map entry_ref (cfs_1 (nan_admitted (baseline_config 1))) = [0]
   \<and> fst (hd (cfs_1 (nan_admitted (baseline_config 1))))
       = vruntime (tasks (nan_admitted (baseline_config 1)) ! 0)
   \<and> stale (tasks (nan_admitted (baseline_config 1))) (hd (cfs_1 (nan_admitted (baseline_config 1))))
   \<and> run (baseline_config 1) [Admit nan_row [], Tick 0] (init_state (baseline_config 1))
       = Inl Never_returns
   \<and> run (ai_config 1 (witness_classifier ''Batch'')) [Admit nan_row [], Tick 0]
        (init_state (ai_config 1 (witness_classifier ''Batch''))) = Inl Never_returns"
proof -
  let ?b = "baseline_config 1"
  let ?a = "ai_config 1 (witness_classifier ''Batch'')"
  have rb: "run ?b [Admit nan_row []] (init_state ?b) = Inr (nan_admitted ?b)"
    by code_simp
  have ab: "admit ?b (Task_init nan_row []) (init_state ?b) = Inr (nan_admitted ?b)"
    using rb by (simp split: sum.splits)
  have ra: "run ?a [Admit nan_row []] (init_state ?a) = Inr (nan_admitted ?a)"
    by code_simp
  have aa: "admit ?a (Task_init nan_row []) (init_state ?a) = Inr (nan_admitted ?a)"
    using ra by (simp split: sum.splits)
  have tb: "tick ?b 0 (nan_admitted ?b) = Inl Never_returns"
    by (rule tick_never_returns [OF nan_admitted_baseline]) (simp_all add: baseline_config_def)
  have ta: "tick ?a 0 (nan_admitted ?a) = Inl Never_returns"
    by (rule tick_never_returns [OF nan_admitted_ai]) (simp_all add: ai_config_def)
  have st: "stale (tasks (nan_admitted ?b)) (hd (cfs_1 (nan_admitted ?b)))"
    by (simp add: nan_admitted_baseline stale_def close_enough_def fl_sub_def del: One_nat_def)
  show ?thesis
    using rb st by (simp add: ab aa tb ta nan_admitted_baseline entry_ref_def del: One_nat_def)
qed

end
